theory Spec2Isabelle
  imports Main
begin

section \<open>Go strings, runes and the standard-library functions the package calls\<close>

text \<open>
  A Go \<^verbatim>\<open>string\<close> is a sequence of bytes; it is modelled as a \<^typ>\<open>string\<close>
  (a list of 8-bit characters), so that \<^term>\<open>length\<close> is Go's \<^verbatim>\<open>len\<close> and
  \<^term>\<open>take\<close>/\<^term>\<open>drop\<close> are Go's slices.  Byte values are read with
  \<^term>\<open>of_char\<close> as natural numbers below 256, and every shift and mask of the
  source is written as the division, remainder or multiplication it computes.
  A \<^verbatim>\<open>rune\<close> is a natural number: the conversions used by the package
  (\<^verbatim>\<open>[]rune(s)\<close>, \<^verbatim>\<open>range s\<close>, \<^verbatim>\<open>utf16.Decode\<close>) never produce a negative rune.
\<close>

type_synonym rune = nat

definition RuneError :: rune where
  "RuneError = 0xFFFD"

text \<open>
  A Unicode scalar value: a code point up to \<^verbatim>\<open>0x10FFFF\<close> outside the surrogate
  range.  These are the runes that valid UTF-8 encodes.
\<close>

definition scalar :: "rune \<Rightarrow> bool" where
  "scalar r \<longleftrightarrow> r < 0xD800 \<or> (0xE000 \<le> r \<and> r \<le> 0x10FFFF)"

text \<open>
  \<^verbatim>\<open>utf8.acceptRanges\<close>: the range allowed for the second byte of a multi-byte
  sequence, selected by the first byte.
\<close>

definition acceptRange :: "nat \<Rightarrow> nat \<times> nat" where
  "acceptRange s0 =
     (if s0 = 0xE0 then (0xA0, 0xBF)
      else if s0 = 0xED then (0x80, 0x9F)
      else if s0 = 0xF0 then (0x90, 0xBF)
      else if s0 = 0xF4 then (0x80, 0x8F)
      else (0x80, 0xBF))"

text \<open>
  \<^verbatim>\<open>utf8.DecodeRuneInString\<close>: the first rune of the string and its width in bytes;
  \<^verbatim>\<open>(RuneError, 0)\<close> on the empty string and \<^verbatim>\<open>(RuneError, 1)\<close> on an invalid
  encoding.  The run-time conversion \<^verbatim>\<open>[]rune(s)\<close> and the \<^verbatim>\<open>range\<close> loop decode
  in the same way.
\<close>

fun DecodeRuneInString :: "string \<Rightarrow> rune \<times> nat" where
  "DecodeRuneInString [] = (RuneError, 0)"
| "DecodeRuneInString (c # cs) =
     (let s0 = of_char c in
      if s0 < 0x80 then (s0, 1)
      else if s0 < 0xC2 \<or> 0xF4 < s0 then (RuneError, 1)
      else
        let sz = (if s0 < 0xE0 then 2 else if s0 < 0xF0 then 3 else 4 :: nat);
            lo = fst (acceptRange s0);
            hi = snd (acceptRange s0)
        in if length (c # cs) < sz then (RuneError, 1)
           else
             let s1 = of_char (cs ! 0) in
             if s1 < lo \<or> hi < s1 then (RuneError, 1)
             else if sz \<le> 2 then ((s0 mod 32) * 64 + s1 mod 64, 2)
             else
               let s2 = of_char (cs ! 1) in
               if s2 < 0x80 \<or> 0xBF < s2 then (RuneError, 1)
               else if sz \<le> 3 then ((s0 mod 16) * 4096 + (s1 mod 64) * 64 + s2 mod 64, 3)
               else
                 let s3 = of_char (cs ! 2) in
                 if s3 < 0x80 \<or> 0xBF < s3 then (RuneError, 1)
                 else ((s0 mod 8) * 262144 + (s1 mod 64) * 4096 + (s2 mod 64) * 64
                        + s3 mod 64, 4))"

lemma DecodeRuneInString_width:
  "s \<noteq> [] \<Longrightarrow> 1 \<le> snd (DecodeRuneInString s) \<and> snd (DecodeRuneInString s) \<le> length s"
proof (cases s)
  case Nil
  assume "s \<noteq> []"
  with Nil show ?thesis by simp
next
  case (Cons c cs)
  consider "(of_char c :: nat) < 0xE0"
    | "0xE0 \<le> (of_char c :: nat)" "(of_char c :: nat) < 0xF0"
    | "0xF0 \<le> (of_char c :: nat)"
    by linarith
  then show ?thesis
  proof cases
    case 1
    then show ?thesis using Cons by (simp add: Let_def Suc_le_eq)
  next
    case 2
    then show ?thesis using Cons by (simp add: Let_def Suc_le_eq)
  next
    case 3
    then show ?thesis using Cons by (simp add: Let_def Suc_le_eq)
  qed
qed

text \<open>\<^verbatim>\<open>[]rune(s)\<close>: the runes of a string, an invalid byte giving \<^verbatim>\<open>RuneError\<close>.\<close>

function runes :: "string \<Rightarrow> rune list" where
  "runes s =
     (if s = [] then []
      else fst (DecodeRuneInString s) # runes (drop (snd (DecodeRuneInString s)) s))"
  by pat_completeness auto
termination
proof (relation "measure length")
  show "wf (measure length)" by simp
next
  fix s :: string
  assume "s \<noteq> []"
  then have "1 \<le> snd (DecodeRuneInString s)"
    using DecodeRuneInString_width by blast
  with \<open>s \<noteq> []\<close> show "(drop (snd (DecodeRuneInString s)) s, s) \<in> measure length"
    by (cases s) auto
qed

declare runes.simps [simp del]

text \<open>
  \<^verbatim>\<open>utf8.ValidString\<close>: the string consists entirely of valid UTF-8 encoded runes,
  that is, decoding never reports \<^verbatim>\<open>(RuneError, 1)\<close>.
\<close>

function ValidString :: "string \<Rightarrow> bool" where
  "ValidString s =
     (if s = [] then True
      else \<not> (fst (DecodeRuneInString s) = RuneError \<and> snd (DecodeRuneInString s) = 1)
           \<and> ValidString (drop (snd (DecodeRuneInString s)) s))"
  by pat_completeness auto
termination
proof (relation "measure length")
  show "wf (measure length)" by simp
next
  fix s :: string
  assume "s \<noteq> []"
  then have "1 \<le> snd (DecodeRuneInString s)"
    using DecodeRuneInString_width by blast
  with \<open>s \<noteq> []\<close> show "(drop (snd (DecodeRuneInString s)) s, s) \<in> measure length"
    by (cases s) auto
qed

declare ValidString.simps [simp del]

text \<open>
  The run-time conversion \<^verbatim>\<open>string(rs)\<close> of a rune slice: each rune is written by
  \<^verbatim>\<open>encoderune\<close>; a surrogate or a value above \<^verbatim>\<open>0x10FFFF\<close> is written as
  \<^verbatim>\<open>RuneError\<close>.
\<close>

definition encoderune :: "rune \<Rightarrow> string" where
  "encoderune r =
     (if r \<le> 0x7F then [char_of r]
      else if r \<le> 0x7FF then [char_of (0xC0 + r div 64), char_of (0x80 + r mod 64)]
      else if 0x10FFFF < r \<or> (0xD800 \<le> r \<and> r \<le> 0xDFFF)
        then [char_of (0xEF :: nat), char_of (0xBF :: nat), char_of (0xBD :: nat)]
      else if r \<le> 0xFFFF
        then [char_of (0xE0 + r div 4096), char_of (0x80 + (r div 64) mod 64),
              char_of (0x80 + r mod 64)]
      else [char_of (0xF0 + r div 262144), char_of (0x80 + (r div 4096) mod 64),
            char_of (0x80 + (r div 64) mod 64), char_of (0x80 + r mod 64)])"

definition string_of_runes :: "rune list \<Rightarrow> string" where
  "string_of_runes rs = concat (map encoderune rs)"

text \<open>
  \<^verbatim>\<open>utf16.Encode\<close>: a rune below \<^verbatim>\<open>0x10000\<close> that is not a surrogate is one
  16-bit unit; a rune up to \<^verbatim>\<open>0x10FFFF\<close> is the surrogate pair of
  \<^verbatim>\<open>utf16.EncodeRune\<close>; anything else is the replacement character.
\<close>

definition utf16_EncodeRune :: "rune \<Rightarrow> nat \<times> nat" where
  "utf16_EncodeRune r =
     (0xD800 + ((r - 0x10000) div 1024) mod 1024, 0xDC00 + (r - 0x10000) mod 1024)"

fun utf16_Encode :: "rune list \<Rightarrow> nat list" where
  "utf16_Encode [] = []"
| "utf16_Encode (v # vs) =
     (if v < 0xD800 \<or> (0xE000 \<le> v \<and> v < 0x10000) then (v mod 65536) # utf16_Encode vs
      else if 0x10000 \<le> v \<and> v \<le> 0x10FFFF
        then (fst (utf16_EncodeRune v) mod 65536) # (snd (utf16_EncodeRune v) mod 65536)
               # utf16_Encode vs
      else (RuneError mod 65536) # utf16_Encode vs)"

text \<open>
  \<^verbatim>\<open>utf16.Decode\<close>: a unit outside the surrogate range is a rune; a high surrogate
  followed by a low surrogate is the rune of \<^verbatim>\<open>utf16.DecodeRune\<close>; any other
  surrogate is the replacement character.
\<close>

definition utf16_DecodeRune :: "nat \<Rightarrow> nat \<Rightarrow> rune" where
  "utf16_DecodeRune r1 r2 = ((r1 - 0xD800) * 1024 + (r2 - 0xDC00)) + 0x10000"

fun utf16_Decode :: "nat list \<Rightarrow> rune list" where
  "utf16_Decode [] = []"
| "utf16_Decode [r] = (if r < 0xD800 \<or> 0xE000 \<le> r then [r] else [RuneError])"
| "utf16_Decode (r # r2 # rs) =
     (if r < 0xD800 \<or> 0xE000 \<le> r then r # utf16_Decode (r2 # rs)
      else if 0xD800 \<le> r \<and> r < 0xDC00 \<and> 0xDC00 \<le> r2 \<and> r2 < 0xE000
        then utf16_DecodeRune r r2 # utf16_Decode rs
      else RuneError # utf16_Decode (r2 # rs))"

text \<open>
  \<^verbatim>\<open>hex.EncodeToString\<close>: two characters of \<^verbatim>\<open>hextable\<close> for each byte, the high
  nibble first.
\<close>

definition hextable :: string where
  "hextable = ''0123456789abcdef''"

fun hex_EncodeToString :: "nat list \<Rightarrow> string" where
  "hex_EncodeToString [] = []"
| "hex_EncodeToString (b # bs) =
     hextable ! (b div 16) # hextable ! (b mod 16) # hex_EncodeToString bs"

text \<open>
  \<^verbatim>\<open>hex.DecodeString\<close>: both cases of the letters are accepted; a character that is
  not a hexadecimal digit is \<^verbatim>\<open>InvalidByteError\<close>, an odd length is
  \<^verbatim>\<open>ErrLength\<close>, the invalid character being reported first.
\<close>

datatype hex_error = InvalidByteError char | ErrLength

definition fromHexChar :: "char \<Rightarrow> nat option" where
  "fromHexChar c =
     (let n = (of_char c :: nat) in
      if 48 \<le> n \<and> n \<le> 57 then Some (n - 48)
      else if 97 \<le> n \<and> n \<le> 102 then Some (n - 97 + 10)
      else if 65 \<le> n \<and> n \<le> 70 then Some (n - 65 + 10)
      else None)"

fun hex_DecodeString :: "string \<Rightarrow> hex_error + nat list" where
  "hex_DecodeString [] = Inr []"
| "hex_DecodeString [p] =
     (case fromHexChar p of None \<Rightarrow> Inl (InvalidByteError p) | Some a \<Rightarrow> Inl ErrLength)"
| "hex_DecodeString (p # q # rest) =
     (case fromHexChar p of
        None \<Rightarrow> Inl (InvalidByteError p)
      | Some a \<Rightarrow>
          (case fromHexChar q of
             None \<Rightarrow> Inl (InvalidByteError q)
           | Some b \<Rightarrow>
               (case hex_DecodeString rest of
                  Inl e \<Rightarrow> Inl e
                | Inr bs \<Rightarrow> Inr ((a * 16 + b) # bs))))"

section \<open>utils.go: the UCS-2 codec\<close>

datatype ucs2_error = FailedToDecodeHex hex_error | OddNumberOfBytes

text \<open>The loop of \<^verbatim>\<open>EncodeUCS2\<close>: the high byte, then the low byte of every unit.\<close>

fun ucs2_bytes :: "nat list \<Rightarrow> nat list" where
  "ucs2_bytes [] = []"
| "ucs2_bytes (r # rs) = ((r div 256) mod 256) # (r mod 256) # ucs2_bytes rs"

definition EncodeUCS2 :: "string \<Rightarrow> string" where
  "EncodeUCS2 text = hex_EncodeToString (ucs2_bytes (utf16_Encode (runes text)))"

text \<open>
  The loop of \<^verbatim>\<open>DecodeUCS2\<close>: big-endian pairs of bytes; it runs on an even
  number of bytes only.
\<close>

fun ucs2_units :: "nat list \<Rightarrow> nat list" where
  "ucs2_units (a # b # bs) = ((a * 256) mod 65536 + b) # ucs2_units bs"
| "ucs2_units _ = []"

definition DecodeUCS2 :: "string \<Rightarrow> ucs2_error + string" where
  "DecodeUCS2 hexStr =
     (case hex_DecodeString (filter (\<lambda>c. c \<noteq> CHR '' '') hexStr) of
        Inl e \<Rightarrow> Inl (FailedToDecodeHex e)
      | Inr data \<Rightarrow>
          if length data mod 2 \<noteq> 0 then Inl OddNumberOfBytes
          else Inr (string_of_runes (utf16_Decode (ucs2_units data))))"

section \<open>Go's \<^verbatim>\<open>strings\<close>, \<^verbatim>\<open>strconv\<close> and \<^verbatim>\<open>time\<close> functions used by the package\<close>

text \<open>\<^verbatim>\<open>unicode.IsSpace\<close>: the characters with the Unicode property White Space.\<close>

definition IsSpace :: "rune \<Rightarrow> bool" where
  "IsSpace r \<longleftrightarrow>
     r = 0x09 \<or> r = 0x0A \<or> r = 0x0B \<or> r = 0x0C \<or> r = 0x0D \<or> r = 0x20
     \<or> r = 0x85 \<or> r = 0xA0 \<or> r = 0x1680 \<or> (0x2000 \<le> r \<and> r \<le> 0x200A)
     \<or> r = 0x2028 \<or> r = 0x2029 \<or> r = 0x202F \<or> r = 0x205F \<or> r = 0x3000"

text \<open>\<^verbatim>\<open>utf8.RuneStart\<close>: the byte is not a continuation byte.\<close>

definition RuneStart :: "nat \<Rightarrow> bool" where
  "RuneStart b \<longleftrightarrow> \<not> (0x80 \<le> b \<and> b < 0xC0)"

text \<open>
  The backward scan of \<^verbatim>\<open>utf8.DecodeLastRuneInString\<close>: from \<open>start\<close> down to
  \<open>lim\<close>, stopping at the first byte that can start a rune.
\<close>

function scan_back :: "string \<Rightarrow> int \<Rightarrow> int \<Rightarrow> int" where
  "scan_back s lim start =
     (if lim \<le> start
      then (if RuneStart (of_char (s ! nat start)) then start else scan_back s lim (start - 1))
      else start)"
  by pat_completeness auto
termination
  by (relation "measure (\<lambda>(s, lim, start). nat (start - lim + 1))") auto

declare scan_back.simps [simp del]

text \<open>
  \<^verbatim>\<open>utf8.DecodeLastRuneInString\<close>: the last rune of the string and its width, with the
  same error results as \<^verbatim>\<open>DecodeRuneInString\<close>.
\<close>

definition DecodeLastRuneInString :: "string \<Rightarrow> rune \<times> nat" where
  "DecodeLastRuneInString s =
     (if s = [] then (RuneError, 0)
      else if (of_char (last s) :: nat) < 0x80 then (of_char (last s), 1)
      else
        let endpos = int (length s);
            lim = (if endpos - 4 < 0 then 0 else endpos - 4);
            start0 = scan_back s lim (endpos - 2);
            start = (if start0 < 0 then 0 else start0);
            d = DecodeRuneInString (drop (nat start) s)
        in if start + int (snd d) \<noteq> endpos then (RuneError, 1) else d)"

text \<open>
  \<^verbatim>\<open>strings.TrimSpace\<close> removes the leading and the trailing white space.  Its result
  is that of \<^verbatim>\<open>TrimFunc(s, unicode.IsSpace)\<close>, which it calls as soon as it meets a
  byte that is not ASCII: white-space runes are removed from the left with
  \<^verbatim>\<open>DecodeRuneInString\<close>, then from the right with \<^verbatim>\<open>DecodeLastRuneInString\<close>.
\<close>

function TrimLeftSpace :: "string \<Rightarrow> string" where
  "TrimLeftSpace s =
     (if s = [] then []
      else if IsSpace (fst (DecodeRuneInString s))
        then TrimLeftSpace (drop (snd (DecodeRuneInString s)) s)
      else s)"
  by pat_completeness auto
termination
proof (relation "measure length")
  show "wf (measure length)" by simp
next
  fix s :: string
  assume "s \<noteq> []"
  then have "1 \<le> snd (DecodeRuneInString s)"
    using DecodeRuneInString_width by blast
  with \<open>s \<noteq> []\<close> show "(drop (snd (DecodeRuneInString s)) s, s) \<in> measure length"
    by (cases s) auto
qed

declare TrimLeftSpace.simps [simp del]

lemma scan_back_le: "scan_back s lim start \<le> start"
proof (induction s lim start rule: scan_back.induct)
  case (1 s lim start)
  show ?case
  proof (cases "lim \<le> start \<and> \<not> RuneStart (of_char (s ! nat start))")
    case True
    with "1.IH" have "scan_back s lim (start - 1) \<le> start - 1" by simp
    with True show ?thesis by (simp add: scan_back.simps [of s lim start])
  next
    case False
    then show ?thesis by (auto simp: scan_back.simps [of s lim start])
  qed
qed

lemma DecodeLastRuneInString_width:
  assumes "s \<noteq> []"
  shows "1 \<le> snd (DecodeLastRuneInString s)"
proof (cases "(of_char (last s) :: nat) < 0x80")
  case True
  with assms show ?thesis by (simp add: DecodeLastRuneInString_def)
next
  case False
  define e where "e = int (length s)"
  define lim where "lim = (if e - 4 < 0 then 0 else e - 4)"
  define start where
    "start = (if scan_back s lim (e - 2) < 0 then 0 else scan_back s lim (e - 2))"
  define d where "d = DecodeRuneInString (drop (nat start) s)"
  have val: "DecodeLastRuneInString s = (if start + int (snd d) \<noteq> e then (RuneError, 1) else d)"
    using assms False
    by (simp add: DecodeLastRuneInString_def Let_def e_def lim_def start_def d_def)
  have "1 \<le> e" using assms by (cases s) (simp_all add: e_def)
  moreover have "scan_back s lim (e - 2) \<le> e - 2" by (rule scan_back_le)
  ultimately have "start < e" by (simp add: start_def)
  then show ?thesis unfolding val by (cases "start + int (snd d) = e") simp_all
qed

function TrimRightSpace :: "string \<Rightarrow> string" where
  "TrimRightSpace s =
     (if s = [] then []
      else if IsSpace (fst (DecodeLastRuneInString s))
        then TrimRightSpace (take (length s - snd (DecodeLastRuneInString s)) s)
      else s)"
  by pat_completeness auto
termination
proof (relation "measure length")
  show "wf (measure length)" by simp
next
  fix s :: string
  assume "s \<noteq> []"
  then have "1 \<le> snd (DecodeLastRuneInString s)"
    by (rule DecodeLastRuneInString_width)
  with \<open>s \<noteq> []\<close>
  show "(take (length s - snd (DecodeLastRuneInString s)) s, s) \<in> measure length"
    by (cases s) auto
qed

declare TrimRightSpace.simps [simp del]

definition TrimSpace :: "string \<Rightarrow> string" where
  "TrimSpace s = TrimRightSpace (TrimLeftSpace s)"

text \<open>
  \<^verbatim>\<open>strings.Split(s, sep)\<close> for a separator of one byte, the only kind the package
  passes: the pieces between the occurrences of the separator, empty pieces included;
  the result is never empty.  \<open>Split_from cur s sep\<close> continues a scan in which the
  bytes \<open>cur\<close> of the current piece have been passed.
\<close>

fun Split_from :: "string \<Rightarrow> string \<Rightarrow> char \<Rightarrow> string list" where
  "Split_from cur [] sep = [cur]"
| "Split_from cur (c # cs) sep =
     (if c = sep then cur # Split_from [] cs sep else Split_from (cur @ [c]) cs sep)"

definition Split :: "string \<Rightarrow> char \<Rightarrow> string list" where
  "Split s sep = Split_from [] s sep"

text \<open>\<^verbatim>\<open>strings.HasPrefix\<close> and \<^verbatim>\<open>strings.Contains\<close>.\<close>

definition HasPrefix :: "string \<Rightarrow> string \<Rightarrow> bool" where
  "HasPrefix s pre \<longleftrightarrow> length pre \<le> length s \<and> take (length pre) s = pre"

fun Contains :: "string \<Rightarrow> string \<Rightarrow> bool" where
  "Contains [] substr = (substr = [])"
| "Contains (c # cs) substr = (HasPrefix (c # cs) substr \<or> Contains cs substr)"

text \<open>
  \<^verbatim>\<open>strconv.Atoi\<close> on a 64-bit platform: an optional sign and decimal digits.  The
  value is 0 with a syntax error on anything else, and the nearest bound of
  \<^verbatim>\<open>int64\<close> with a range error on overflow; \<^verbatim>\<open>ParseUint\<close> reports the overflow
  as soon as it happens, before it looks at the rest of the string.
\<close>

datatype num_error = ErrSyntax | ErrRange

definition isDigit :: "char \<Rightarrow> bool" where
  "isDigit c \<longleftrightarrow> 48 \<le> (of_char c :: nat) \<and> (of_char c :: nat) \<le> 57"

fun ParseUint_loop :: "string \<Rightarrow> nat \<Rightarrow> nat \<times> num_error option" where
  "ParseUint_loop [] n = (n, None)"
| "ParseUint_loop (c # cs) n =
     (if \<not> isDigit c then (0, Some ErrSyntax)
      else if 2 ^ 64 div 10 + 1 \<le> n then (2 ^ 64 - 1, Some ErrRange)
      else if 2 ^ 64 - 1 < n * 10 + (of_char c - 48) then (2 ^ 64 - 1, Some ErrRange)
      else ParseUint_loop cs (n * 10 + (of_char c - 48)))"

definition Atoi :: "string \<Rightarrow> int \<times> num_error option" where
  "Atoi s =
     (if s = [] then (0, Some ErrSyntax)
      else
        let neg = (hd s = CHR ''-'');
            ds = (if hd s = CHR ''-'' \<or> hd s = CHR ''+'' then tl s else s)
        in if ds = [] then (0, Some ErrSyntax)
           else
             let r = ParseUint_loop ds 0; un = fst r in
             if snd r = Some ErrSyntax then (0, Some ErrSyntax)
             else if \<not> neg \<and> 2 ^ 63 \<le> un then (2 ^ 63 - 1, Some ErrRange)
             else if neg \<and> 2 ^ 63 < un then (- (2 ^ 63), Some ErrRange)
             else (if neg then - int un else int un, None))"

text \<open>
  \<^verbatim>\<open>time.Time\<close>: an instant is the number of seconds since the zero instant
  \<^verbatim>\<open>time.Time{}\<close>, which is January 1 of year 1, 00:00:00 UTC.
  \<^verbatim>\<open>time.Date(y, mo, d, h, mi, s, 0, time.UTC)\<close> normalises the month into the year and
  the seconds, minutes and hours upwards with \<^verbatim>\<open>norm\<close>, then counts the days of the
  proleptic Gregorian calendar.  The wrap-around of \<^verbatim>\<open>int64\<close> on years of more than
  eighteen digits is not modelled.
\<close>

type_synonym instant = int

definition zeroTime :: instant where
  "zeroTime = 0"

definition norm :: "int \<Rightarrow> int \<Rightarrow> int \<Rightarrow> int \<times> int" where
  "norm hi lo base =
     (let hl1 = (if lo < 0
                 then (hi - ((- lo - 1) div base + 1), lo + ((- lo - 1) div base + 1) * base)
                 else (hi, lo));
          hi1 = fst hl1; lo1 = snd hl1
      in if base \<le> lo1 then (hi1 + lo1 div base, lo1 - (lo1 div base) * base)
         else (hi1, lo1))"

definition isLeap :: "int \<Rightarrow> bool" where
  "isLeap year \<longleftrightarrow> year mod 4 = 0 \<and> (year mod 100 \<noteq> 0 \<or> year mod 400 = 0)"

definition daysBefore :: "int list" where
  "daysBefore = [0, 31, 59, 90, 120, 151, 181, 212, 243, 273, 304, 334, 365]"

text \<open>The days from January 1 of year 1 to January 1 of the given year.\<close>

definition daysSinceYear1 :: "int \<Rightarrow> int" where
  "daysSinceYear1 year =
     365 * (year - 1) + (year - 1) div 4 - (year - 1) div 100 + (year - 1) div 400"

definition time_Date :: "int \<Rightarrow> int \<Rightarrow> int \<Rightarrow> int \<Rightarrow> int \<Rightarrow> int \<Rightarrow> instant" where
  "time_Date year month day hour minute sec =
     (let ym = norm year (month - 1) 12; year1 = fst ym; m = snd ym;
          ms = norm minute sec 60; min1 = fst ms; sec1 = snd ms;
          hm = norm hour min1 60; hour1 = fst hm; min2 = snd hm;
          dh = norm day hour1 24; day1 = fst dh; hour2 = snd dh;
          d = daysSinceYear1 year1 + daysBefore ! nat m
              + (if isLeap year1 \<and> 3 \<le> m + 1 then 1 else 0) + (day1 - 1)
      in d * 86400 + hour2 * 3600 + min2 * 60 + sec1)"

text \<open>\<^verbatim>\<open>fmt.Sprintf("%d", n)\<close> for a number that is not negative.\<close>

function itoa :: "nat \<Rightarrow> string" where
  "itoa n = (if n < 10 then [char_of (48 + n)] else itoa (n div 10) @ [char_of (48 + n mod 10)])"
  by pat_completeness auto
termination
  by (relation "measure id") auto

declare itoa.simps [simp del]

definition CRLF :: string where
  "CRLF = [CHR 0x0D, CHR 0x0A]"

section \<open>Errors and panics\<close>

text \<open>
  An \<^verbatim>\<open>error\<close> of the package is built by \<^verbatim>\<open>errors.New\<close> or by \<^verbatim>\<open>fmt.Errorf\<close>
  around a message, in the second case possibly wrapping (\<^verbatim>\<open>%w\<close>) another error;
  \<open>IOError\<close> stands for the error a failed \<^verbatim>\<open>port.Write\<close> returns.  A function
  that returns \<^verbatim>\<open>(string, error)\<close> returns a pair whose second component is \<open>None\<close>
  for \<^verbatim>\<open>nil\<close>.  A run-time panic is a value of its own.
\<close>

datatype error = IOError | ErrorString string | WrapError string error

datatype panic = SliceBoundsOutOfRange | CloseOfClosedChannel

section \<open>modem.go: reading a response\<close>

text \<open>
  \<^verbatim>\<open>readResponse\<close> of lines 546 to 589 polls \<^verbatim>\<open>port.Read\<close> until the timeout has
  elapsed.  Its argument is what the successive calls of \<^verbatim>\<open>port.Read\<close> return while
  \<^verbatim>\<open>time.Since(startTime) < timeout\<close> holds: an error, or the bytes read (possibly
  none).  When the list is exhausted the timeout has elapsed.
\<close>

datatype read_result = ReadError | ReadBytes string

fun readResponse_loop :: "read_result list \<Rightarrow> string \<Rightarrow> string \<times> error option" where
  "readResponse_loop [] response =
     (if length response = 0 then ([], Some (ErrorString ''timeout waiting for response''))
      else (response, None))"
| "readResponse_loop (ReadError # rs) response =
     (if 0 < length response \<and> (Contains response ''OK'' \<or> Contains response ''ERROR'')
      then (response, None)
      else readResponse_loop rs response)"
| "readResponse_loop (ReadBytes buf # rs) response =
     (if 0 < length buf then
        if Contains (response @ buf) (CRLF @ ''OK'' @ CRLF)
           \<or> Contains (response @ buf) (CRLF @ ''ERROR'' @ CRLF)
           \<or> Contains (response @ buf) (CRLF @ ''+CME ERROR'')
           \<or> Contains (response @ buf) (CRLF @ ''+CMS ERROR'')
        then (response @ buf, None)
        else readResponse_loop rs (response @ buf)
      else readResponse_loop rs response)"

definition readResponse :: "read_result list \<Rightarrow> string \<times> error option" where
  "readResponse rs = readResponse_loop rs []"

text \<open>
  \<^verbatim>\<open>readResponse\<close> of lines 234 to 273 reads lines with \<^verbatim>\<open>bufio.Reader.ReadString\<close>.
  Its argument is what the successive calls of \<^verbatim>\<open>ReadString\<close> return before the
  timeout channel fires: an error (the bytes read so far are dropped by the
  \<^verbatim>\<open>continue\<close>), or a line with its delimiter.
\<close>

datatype line_result = LineError | Line string

fun readResponse_bufio_loop :: "line_result list \<Rightarrow> string \<Rightarrow> string \<times> error option" where
  "readResponse_bufio_loop [] response =
     (if length response = 0 then ([], Some (ErrorString ''timeout waiting for response''))
      else (response, None))"
| "readResponse_bufio_loop (LineError # rs) response =
     (if 0 < length response \<and> Contains response ''OK'' then (response, None)
      else if 0 < length response \<and> Contains response ''ERROR''
        then (response, Some (ErrorString ''command returned ERROR''))
      else readResponse_bufio_loop rs response)"
| "readResponse_bufio_loop (Line l # rs) response =
     (if TrimSpace l \<noteq> [] then
        if HasPrefix (TrimSpace l) ''OK'' \<or> HasPrefix (TrimSpace l) ''ERROR''
           \<or> HasPrefix (TrimSpace l) ''+CME ERROR'' \<or> HasPrefix (TrimSpace l) ''+CMS ERROR''
        then (response @ TrimSpace l @ ''\<newline>'', None)
        else readResponse_bufio_loop rs (response @ TrimSpace l @ ''\<newline>'')
      else readResponse_bufio_loop rs response)"

definition readResponse_bufio :: "line_result list \<Rightarrow> string \<times> error option" where
  "readResponse_bufio rs = readResponse_bufio_loop rs []"

text \<open>The bytes a run of \<^verbatim>\<open>port.Read\<close> calls has delivered.\<close>

fun received :: "read_result list \<Rightarrow> string" where
  "received [] = []"
| "received (ReadError # rs) = received rs"
| "received (ReadBytes buf # rs) = buf @ received rs"

text \<open>The lines a run of \<^verbatim>\<open>ReadString\<close> calls accumulates: trimmed, the empty ones left out.\<close>

fun accumulated :: "line_result list \<Rightarrow> string" where
  "accumulated [] = []"
| "accumulated (LineError # rs) = accumulated rs"
| "accumulated (Line l # rs) =
     (if TrimSpace l \<noteq> [] then TrimSpace l @ ''\<newline>'' @ accumulated rs else accumulated rs)"

section \<open>The serial port and the mutex, as a trace\<close>

text \<open>
  A transaction acts on the modem's mutex and on the serial port.  The state records,
  in order, every such action; what the environment does is given by two functions:
  whether the \<open>n\<close>-th \<^verbatim>\<open>port.Write\<close> of the run fails, and what the \<open>n\<close>-th call of
  \<^verbatim>\<open>readResponse\<close> is given to read.  The function \<open>rr\<close> is the \<^verbatim>\<open>readResponse\<close> in
  use, \<^const>\<open>readResponse\<close> or \<^const>\<open>readResponse_bufio\<close>.  Durations are in
  milliseconds.
\<close>

datatype action = Lock | Unlock | Flush | Write string | Sleep nat | ReadResponse nat

record 'r port =
  trace :: "action list"
  write_fails :: "nat \<Rightarrow> bool"
  replies :: "nat \<Rightarrow> 'r"
  writes_done :: nat
  reads_done :: nat

definition log :: "action \<Rightarrow> 'r port \<Rightarrow> 'r port" where
  "log a p = p\<lparr>trace := trace p @ [a]\<rparr>"

text \<open>\<^verbatim>\<open>m.port.Write\<close>: the first component tells whether the write failed.\<close>

definition port_Write :: "string \<Rightarrow> 'r port \<Rightarrow> bool \<times> 'r port" where
  "port_Write s p =
     (write_fails p (writes_done p),
      p\<lparr>trace := trace p @ [Write s], writes_done := Suc (writes_done p)\<rparr>)"

definition port_readResponse ::
  "('r \<Rightarrow> string \<times> error option) \<Rightarrow> nat \<Rightarrow> 'r port \<Rightarrow> (string \<times> error option) \<times> 'r port" where
  "port_readResponse rr timeout p =
     (rr (replies p (reads_done p)),
      p\<lparr>trace := trace p @ [ReadResponse timeout], reads_done := Suc (reads_done p)\<rparr>)"

definition sendCommand ::
  "('r \<Rightarrow> string \<times> error option) \<Rightarrow> string \<Rightarrow> nat \<Rightarrow> 'r port
     \<Rightarrow> (string \<times> error option) \<times> 'r port" where
  "sendCommand rr cmd timeout p =
     (let w = port_Write (cmd @ CRLF) (log Flush p) in
      if fst w then (([], Some (WrapError ''failed to write command'' IOError)), snd w)
      else port_readResponse rr timeout (snd w))"

definition SendCommand ::
  "('r \<Rightarrow> string \<times> error option) \<Rightarrow> string \<Rightarrow> nat \<Rightarrow> 'r port
     \<Rightarrow> (string \<times> error option) \<times> 'r port" where
  "SendCommand rr cmd timeout p =
     (let r = sendCommand rr cmd timeout (log Lock p) in (fst r, log Unlock (snd r)))"

section \<open>Sending a message\<close>

text \<open>The loop of \<^verbatim>\<open>SendSMS\<close> over the runes of the text, left at the first rune above 127.\<close>

fun needsUCS2_loop :: "rune list \<Rightarrow> bool" where
  "needsUCS2_loop [] = False"
| "needsUCS2_loop (r # rs) = (if 127 < r then True else needsUCS2_loop rs)"

definition needsUCS2 :: "string \<Rightarrow> bool" where
  "needsUCS2 text = needsUCS2_loop (runes text)"

text \<open>
  The part of \<^verbatim>\<open>SendSMS\<close> that runs with the mutex held, from \<^verbatim>\<open>m.mu.Lock()\<close> on; the
  deferred \<^verbatim>\<open>Unlock\<close> is the last action on every path.
\<close>

definition SendSMS_locked ::
  "('r \<Rightarrow> string \<times> error option) \<Rightarrow> string \<Rightarrow> string \<Rightarrow> 'r port \<Rightarrow> error option \<times> 'r port" where
  "SendSMS_locked rr cmd text p =
     (let w1 = port_Write (cmd @ [CHR 0x0D]) p in
      if fst w1 then (Some (WrapError ''failed to initiate SMS'' IOError), snd w1)
      else
        let w2 = port_Write (text @ [CHR 0x1A]) (log (Sleep 100) (snd w1)) in
        if fst w2 then (Some (WrapError ''failed to send SMS text'' IOError), snd w2)
        else
          let r = port_readResponse rr 30000 (snd w2) in
          case snd (fst r) of
            Some err \<Rightarrow> (Some (WrapError ''failed to send SMS'' err), snd r)
          | None \<Rightarrow>
              if \<not> Contains (fst (fst r)) ''OK''
              then (Some (ErrorString (''SMS sending failed: '' @ fst (fst r))), snd r)
              else (None, snd (sendCommand rr ''AT+CSCS=\"GSM\"'' 1000 (snd r))))"

definition SendSMS ::
  "('r \<Rightarrow> string \<times> error option) \<Rightarrow> string \<Rightarrow> string \<Rightarrow> 'r port \<Rightarrow> error option \<times> 'r port" where
  "SendSMS rr number text p =
     (let r1 = SendCommand rr ''AT+CMGF=1'' 1000 p in
      case snd (fst r1) of
        Some err \<Rightarrow> (Some (WrapError ''failed to set text mode'' err), snd r1)
      | None \<Rightarrow>
          if needsUCS2 text then
            let r2 = SendCommand rr ''AT+CSCS=\"UCS2\"'' 1000 (snd r1) in
            case snd (fst r2) of
              Some err \<Rightarrow> (Some (WrapError ''failed to set UCS2 encoding'' err), snd r2)
            | None \<Rightarrow>
                let r3 = SendSMS_locked rr (''AT+CMGS=\"'' @ EncodeUCS2 number @ ''\"'')
                           (EncodeUCS2 text) (log Lock (snd r2))
                in (fst r3, log Unlock (snd r3))
          else
            let r2 = SendCommand rr ''AT+CSCS=\"GSM\"'' 1000 (snd r1) in
            case snd (fst r2) of
              Some err \<Rightarrow> (Some (WrapError ''failed to set GSM encoding'' err), snd r2)
            | None \<Rightarrow>
                let r3 = SendSMS_locked rr (''AT+CMGS=\"'' @ number @ ''\"'') text
                           (log Lock (snd r2))
                in (fst r3, log Unlock (snd r3)))"

text \<open>The inner loop of \<^verbatim>\<open>splitText\<close>: the place of the cut.\<close>

function findSplit :: "string \<Rightarrow> int \<Rightarrow> int \<Rightarrow> int" where
  "findSplit text maxLen i =
     (if maxLen - 20 < i \<and> 0 < i
      then (if text ! nat i = CHR '' '' then i else findSplit text maxLen (i - 1))
      else maxLen)"
  by pat_completeness auto
termination
  by (relation "measure (\<lambda>(text, maxLen, i). nat i)") auto

declare findSplit.simps [simp del]

text \<open>
  The outer loop of \<^verbatim>\<open>splitText\<close>.  It need not terminate, so the result is an
  option: \<open>None\<close> when the loop runs forever.  The slice \<^verbatim>\<open>text[:splitAt]\<close> panics
  when \<^verbatim>\<open>splitAt\<close> is negative.
\<close>

partial_function (option) splitText_loop ::
  "string \<Rightarrow> int \<Rightarrow> string list \<Rightarrow> (panic + string list) option" where
  "splitText_loop text maxLen parts =
     (if 0 < length text then
        if int (length text) \<le> maxLen then Some (Inr (parts @ [text]))
        else
          let splitAt = findSplit text maxLen (maxLen - 1) in
          if splitAt < 0 then Some (Inl SliceBoundsOutOfRange)
          else splitText_loop (TrimSpace (drop (nat splitAt) text)) maxLen
                 (parts @ [take (nat splitAt) text])
      else Some (Inr parts))"

definition splitText :: "string \<Rightarrow> int \<Rightarrow> (panic + string list) option" where
  "splitText text maxLen = splitText_loop text maxLen []"

text \<open>The loop of \<^verbatim>\<open>SendLongSMS\<close> over the parts, \<open>i\<close> being the index of the first one.\<close>

fun send_parts ::
  "('r \<Rightarrow> string \<times> error option) \<Rightarrow> string \<Rightarrow> string list \<Rightarrow> nat \<Rightarrow> nat \<Rightarrow> 'r port
     \<Rightarrow> error option \<times> 'r port" where
  "send_parts rr number [] i n p = (None, p)"
| "send_parts rr number (part # rest) i n p =
     (let r = SendSMS rr number (''['' @ itoa (i + 1) @ ''/'' @ itoa n @ ''] '' @ part) p in
      case fst r of
        Some err \<Rightarrow> (Some (WrapError (''failed to send part '' @ itoa (i + 1)) err), snd r)
      | None \<Rightarrow> send_parts rr number rest (i + 1) n (log (Sleep 1000) (snd r)))"

definition maxSMSLength :: nat where
  "maxSMSLength = 160"

definition SendLongSMS ::
  "('r \<Rightarrow> string \<times> error option) \<Rightarrow> string \<Rightarrow> string \<Rightarrow> 'r port
     \<Rightarrow> (panic + error option \<times> 'r port) option" where
  "SendLongSMS rr number text p =
     (if length text \<le> maxSMSLength then Some (Inr (SendSMS rr number text p))
      else
        case splitText text (int maxSMSLength - 10) of
          None \<Rightarrow> None
        | Some (Inl pn) \<Rightarrow> Some (Inl pn)
        | Some (Inr parts) \<Rightarrow> Some (Inr (send_parts rr number parts 0 (length parts) p)))"

section \<open>Parsing a GSM time stamp\<close>

definition parseGSMTime :: "string \<Rightarrow> instant" where
  "parseGSMTime timeStr =
     (let parts = Split timeStr CHR '','' in
      if length parts < 2 then zeroTime
      else
        let dateParts = Split (parts ! 0) CHR ''/'' in
        if length dateParts < 3 then zeroTime
        else
          let timeParts = Split (parts ! 1) CHR ''+'' in
          if length timeParts < 1 then zeroTime
          else
            let timeComponents = Split (timeParts ! 0) CHR '':'' in
            if length timeComponents < 3 then zeroTime
            else
              time_Date (fst (Atoi (''20'' @ dateParts ! 0)))
                        (fst (Atoi (dateParts ! 1)))
                        (fst (Atoi (dateParts ! 2)))
                        (fst (Atoi (timeComponents ! 0)))
                        (fst (Atoi (timeComponents ! 1)))
                        (fst (Atoi (timeComponents ! 2))))"

text \<open>
  A field of a GSM time stamp: two decimal digits, and the number they write.
\<close>

definition two_digits :: "string \<Rightarrow> bool" where
  "two_digits s \<longleftrightarrow> length s = 2 \<and> isDigit (s ! 0) \<and> isDigit (s ! 1)"

definition dec2 :: "string \<Rightarrow> int" where
  "dec2 s = int ((of_char (s ! 0) - 48) * 10 + (of_char (s ! 1) - 48))"

section \<open>events.go and modem.go: the event channel and the stop channel\<close>

text \<open>
  An \<^verbatim>\<open>Event\<close> has a type, the time of its reception and a bag of data; a value of the
  bag is a string, an integer or a network status.
\<close>

datatype EventType =
  EventNewSMS | EventIncomingCall | EventCallEnded | EventNetworkChange | EventSignalChange
  | EventUSSD | EventModemError | EventSMSDeliveryReport

datatype event_value = StringValue string | IntValue int | NetworkStatusValue int

record Event =
  Type :: EventType
  Timestamp :: instant
  Data :: "(string \<times> event_value) list"

text \<open>
  The fields of \<^verbatim>\<open>Modem\<close> that the event listener and \<^verbatim>\<open>Close\<close> use.  The buffered
  channel \<^verbatim>\<open>eventChan\<close> is the list of the events it holds, oldest first, with its
  capacity; \<^verbatim>\<open>stopEventsCh\<close> is only ever closed, so it is \<^verbatim>\<open>nil\<close> (\<open>None\<close>), open or
  closed.
\<close>

datatype chan_state = ChanOpen | ChanClosed

record modem =
  eventChan :: "Event list"
  eventChan_cap :: nat
  stopEventsCh :: "chan_state option"
  port_closed :: bool

text \<open>The struct that \<^verbatim>\<open>New\<close> builds (lines 152 to 158).\<close>

definition New_modem :: modem where
  "New_modem = \<lparr>eventChan = [], eventChan_cap = 100, stopEventsCh = Some ChanOpen,
                 port_closed = False\<rparr>"

text \<open>
  The \<^verbatim>\<open>select\<close> of \<^verbatim>\<open>eventListenerLoop\<close> with its \<^verbatim>\<open>default\<close> branch: the event is
  sent when the channel has room, and nothing is done otherwise.  What \<^verbatim>\<open>parseEvent\<close>
  builds from a line is a parameter of the loop.
\<close>

definition try_send :: "Event \<Rightarrow> modem \<Rightarrow> modem" where
  "try_send ev m =
     (if length (eventChan m) < eventChan_cap m then m\<lparr>eventChan := eventChan m @ [ev]\<rparr>
      else m)"

text \<open>
  The body of \<^verbatim>\<open>eventListenerLoop\<close> after a read of \<open>n > 0\<close> bytes: every complete
  line is trimmed, parsed and delivered; the incomplete last line stays in the buffer.
\<close>

fun deliver_lines :: "(string \<Rightarrow> Event option) \<Rightarrow> string list \<Rightarrow> modem \<Rightarrow> modem" where
  "deliver_lines parseEvent [] m = m"
| "deliver_lines parseEvent (l # ls) m =
     (if TrimSpace l \<noteq> [] then
        case parseEvent (TrimSpace l) of
          Some event \<Rightarrow> deliver_lines parseEvent ls (try_send event m)
        | None \<Rightarrow> deliver_lines parseEvent ls m
      else deliver_lines parseEvent ls m)"

definition handle_read ::
  "(string \<Rightarrow> Event option) \<Rightarrow> string \<Rightarrow> string \<Rightarrow> modem \<Rightarrow> modem \<times> string" where
  "handle_read parseEvent lineBuffer buf m =
     (let lines = Split (lineBuffer @ buf) CHR ''\<newline>'' in
      (deliver_lines parseEvent (butlast lines) m, last lines))"

text \<open>The built-in \<^verbatim>\<open>close\<close>: closing a closed channel panics.\<close>

definition close_chan :: "chan_state \<Rightarrow> panic + chan_state" where
  "close_chan c = (case c of ChanOpen \<Rightarrow> Inr ChanClosed | ChanClosed \<Rightarrow> Inl CloseOfClosedChannel)"

definition StopEventListener :: "modem \<Rightarrow> panic + modem" where
  "StopEventListener m =
     (case stopEventsCh m of
        None \<Rightarrow> Inr m
      | Some c \<Rightarrow>
          (case close_chan c of
             Inl pn \<Rightarrow> Inl pn
           | Inr c' \<Rightarrow> Inr (m\<lparr>stopEventsCh := Some c'\<rparr>)))"

text \<open>
  \<^verbatim>\<open>Close\<close> of lines 195 to 208.  The port is never \<^verbatim>\<open>nil\<close> in a modem that \<^verbatim>\<open>New\<close>
  returned; \<open>close_err\<close> is what \<^verbatim>\<open>port.Close()\<close> returns.
\<close>

definition Close :: "error option \<Rightarrow> modem \<Rightarrow> panic + error option \<times> modem" where
  "Close close_err m =
     (case stopEventsCh m of
        None \<Rightarrow> Inr (close_err, m\<lparr>port_closed := True\<rparr>)
      | Some c \<Rightarrow>
          (case close_chan c of
             Inl pn \<Rightarrow> Inl pn
           | Inr c' \<Rightarrow> Inr (close_err, m\<lparr>stopEventsCh := Some c', port_closed := True\<rparr>)))"

text \<open>The port writes of a trace, in order.\<close>

fun writes :: "action list \<Rightarrow> string list" where
  "writes [] = []"
| "writes (Write s # as) = s # writes as"
| "writes (a # as) = writes as"

section \<open>Properties of the UCS-2 codec\<close>

lemma div_mod_base: "(y::nat) < k \<Longrightarrow> (x * k + y) div k = x \<and> (x * k + y) mod k = y"
  by simp

lemma split3:
  assumes "b < 64" "c < (64::nat)"
  shows "(a * 4096 + b * 64 + c) div 4096 = a"
    and "((a * 4096 + b * 64 + c) div 64) mod 64 = b"
    and "(a * 4096 + b * 64 + c) mod 64 = c"
proof -
  have lt: "b * 64 + c < 4096" using assms by simp
  have g1: "a * 4096 + b * 64 + c = a * 4096 + (b * 64 + c)" by simp
  have g2: "a * 4096 + b * 64 + c = (a * 64 + b) * 64 + c" by simp
  show "(a * 4096 + b * 64 + c) div 4096 = a"
    unfolding g1 using div_mod_base [OF lt] by blast
  have "(a * 4096 + b * 64 + c) div 64 = a * 64 + b"
    unfolding g2 using div_mod_base [OF assms(2)] by blast
  then show "((a * 4096 + b * 64 + c) div 64) mod 64 = b"
    using div_mod_base [OF assms(1), of a] by simp
  show "(a * 4096 + b * 64 + c) mod 64 = c"
    unfolding g2 using div_mod_base [OF assms(2)] by blast
qed

lemma split4:
  assumes "b < 64" "c < 64" "d < (64::nat)"
  shows "(a * 262144 + b * 4096 + c * 64 + d) div 262144 = a"
    and "((a * 262144 + b * 4096 + c * 64 + d) div 4096) mod 64 = b"
    and "((a * 262144 + b * 4096 + c * 64 + d) div 64) mod 64 = c"
    and "(a * 262144 + b * 4096 + c * 64 + d) mod 64 = d"
proof -
  let ?r = "a * 262144 + b * 4096 + c * 64 + d"
  have lt1: "b * 4096 + c * 64 + d < 262144" using assms by simp
  have lt2: "c * 64 + d < 4096" using assms by simp
  have g1: "?r = a * 262144 + (b * 4096 + c * 64 + d)" by simp
  have g2: "?r = (a * 64 + b) * 4096 + (c * 64 + d)" by simp
  have g3: "?r = (a * 4096 + b * 64 + c) * 64 + d" by simp
  show "?r div 262144 = a"
    unfolding g1 using div_mod_base [OF lt1] by blast
  have "?r div 4096 = a * 64 + b"
    unfolding g2 using div_mod_base [OF lt2] by blast
  then show "(?r div 4096) mod 64 = b"
    using div_mod_base [OF assms(1), of a] by simp
  have "?r div 64 = a * 4096 + b * 64 + c"
    unfolding g3 using div_mod_base [OF assms(3)] by blast
  moreover have "a * 4096 + b * 64 + c = (a * 64 + b) * 64 + c" by simp
  ultimately show "(?r div 64) mod 64 = c"
    using div_mod_base [OF assms(2), of "a * 64 + b"] by simp
  show "?r mod 64 = d"
    unfolding g3 using div_mod_base [OF assms(3)] by blast
qed

lemma enc1: "r < 0x80 \<Longrightarrow> encoderune r = [char_of r]"
  by (simp add: encoderune_def)

lemma enc2:
  assumes "2 \<le> a" "a < 32" "b < 64"
  shows "encoderune (a * 64 + b) = [char_of (0xC0 + a), char_of (0x80 + b)]"
proof -
  have "(a * 64 + b) div 64 = a" "(a * 64 + b) mod 64 = b" using assms by simp_all
  moreover have "\<not> a * 64 + b \<le> 0x7F" "a * 64 + b \<le> 0x7FF" using assms by simp_all
  ultimately show ?thesis by (simp add: encoderune_def)
qed

lemma enc3:
  assumes "a < 16" "b < 64" "c < 64" "0x800 \<le> a * 4096 + b * 64 + c"
    "\<not> (0xD800 \<le> a * 4096 + b * 64 + c \<and> a * 4096 + b * 64 + c \<le> 0xDFFF)"
  shows "encoderune (a * 4096 + b * 64 + c)
         = [char_of (0xE0 + a), char_of (0x80 + b), char_of (0x80 + c)]"
proof -
  let ?r = "a * 4096 + b * 64 + c"
  note s = split3 [OF assms(2,3), of a]
  have "\<not> ?r \<le> 0x7F" "\<not> ?r \<le> 0x7FF" "?r \<le> 0xFFFF" "\<not> 0x10FFFF < ?r"
    using assms by simp_all
  then show ?thesis using assms(5) s by (simp add: encoderune_def)
qed

lemma enc4:
  assumes "a < 8" "b < 64" "c < 64" "d < 64" "0x10000 \<le> a * 262144 + b * 4096 + c * 64 + d"
    "a * 262144 + b * 4096 + c * 64 + d \<le> 0x10FFFF"
  shows "encoderune (a * 262144 + b * 4096 + c * 64 + d)
         = [char_of (0xF0 + a), char_of (0x80 + b), char_of (0x80 + c), char_of (0x80 + d)]"
proof -
  let ?r = "a * 262144 + b * 4096 + c * 64 + d"
  note s = split4 [OF assms(2,3,4), of a]
  have "\<not> ?r \<le> 0x7F" "\<not> ?r \<le> 0x7FF" "\<not> ?r \<le> 0xFFFF" "\<not> 0x10FFFF < ?r"
     "\<not> (0xD800 \<le> ?r \<and> ?r \<le> 0xDFFF)"
    using assms by simp_all
  then show ?thesis using s by (simp add: encoderune_def)
qed


lemma Decode1:
  "(of_char c :: nat) < 0x80 \<Longrightarrow> DecodeRuneInString (c # cs) = (of_char c, 1)"
  by simp

lemma Decode0:
  "0x80 \<le> (of_char c :: nat) \<Longrightarrow> (of_char c :: nat) < 0xC2 \<or> 0xF4 < (of_char c :: nat)
   \<Longrightarrow> DecodeRuneInString (c # cs) = (RuneError, 1)"
  by (simp add: Let_def)

lemma Decode2:
  assumes "0xC2 \<le> (of_char c :: nat)" "(of_char c :: nat) < 0xE0"
  shows "DecodeRuneInString (c # cs) =
    (case cs of
       [] \<Rightarrow> (RuneError, 1)
     | c1 # _ \<Rightarrow>
         if (of_char c1 :: nat) < 0x80 \<or> 0xBF < (of_char c1 :: nat) then (RuneError, 1)
         else ((of_char c mod 32) * 64 + of_char c1 mod 64, 2))"
  using assms by (cases cs) (simp_all add: Let_def acceptRange_def)

lemma Decode3:
  assumes "0xE0 \<le> (of_char c :: nat)" "(of_char c :: nat) < 0xF0"
  shows "DecodeRuneInString (c # cs) =
    (case cs of
       c1 # c2 # _ \<Rightarrow>
         if (of_char c1 :: nat) < fst (acceptRange (of_char c))
            \<or> snd (acceptRange (of_char c)) < (of_char c1 :: nat) then (RuneError, 1)
         else if (of_char c2 :: nat) < 0x80 \<or> 0xBF < (of_char c2 :: nat) then (RuneError, 1)
         else ((of_char c mod 16) * 4096 + (of_char c1 mod 64) * 64 + of_char c2 mod 64, 3)
     | _ \<Rightarrow> (RuneError, 1))"
proof (cases cs)
  case Nil
  then show ?thesis using assms by (simp add: Let_def)
next
  case (Cons c1 cs1)
  then show ?thesis using assms by (cases cs1) (simp_all add: Let_def)
qed


lemma Decode4:
  assumes "0xF0 \<le> (of_char c :: nat)" "(of_char c :: nat) \<le> 0xF4"
  shows "DecodeRuneInString (c # cs) =
    (case cs of
       c1 # c2 # c3 # _ \<Rightarrow>
         if (of_char c1 :: nat) < fst (acceptRange (of_char c))
            \<or> snd (acceptRange (of_char c)) < (of_char c1 :: nat) then (RuneError, 1)
         else if (of_char c2 :: nat) < 0x80 \<or> 0xBF < (of_char c2 :: nat) then (RuneError, 1)
         else if (of_char c3 :: nat) < 0x80 \<or> 0xBF < (of_char c3 :: nat) then (RuneError, 1)
         else ((of_char c mod 8) * 262144 + (of_char c1 mod 64) * 4096
                + (of_char c2 mod 64) * 64 + of_char c3 mod 64, 4)
     | _ \<Rightarrow> (RuneError, 1))"
proof (cases cs)
  case Nil
  then show ?thesis using assms by (simp add: Let_def)
next
  case (Cons c1 cs1)
  show ?thesis
  proof (cases cs1)
    case Nil
    then show ?thesis using Cons assms by (simp add: Let_def)
  next
    case (Cons c2 cs2)
    then show ?thesis using \<open>cs = c1 # cs1\<close> assms by (cases cs2) (simp_all add: Let_def)
  qed
qed

lemma lead_byte:
  fixes base k :: nat
  assumes "base \<le> (of_char c :: nat)" "(of_char c :: nat) < base + k" "k dvd base"
  obtains a :: nat where "a < k" "of_char c = base + a" "(of_char c :: nat) mod k = a"
    "c = char_of (base + a)"
proof -
  define a :: nat where "a = of_char c - base"
  have 1: "a < k" "(of_char c :: nat) = base + a" using assms unfolding a_def by linarith+
  from assms(3) obtain q where q: "base = k * q" by (rule dvdE)
  have "(k * q + a) mod k = a mod k" by (rule mod_mult_self4)
  then have 2: "(of_char c :: nat) mod k = a" unfolding 1(2) q using 1(1) by simp
  have "char_of (of_char c :: nat) = c" by simp
  then have 3: "c = char_of (base + a)" unfolding 1(2) by simp
  from 1 2 3 show ?thesis using that by blast
qed

lemma cont_byte:
  assumes "\<not> ((of_char c :: nat) < 0x80 \<or> 0xBF < (of_char c :: nat))"
  obtains b :: nat where "b < 64" "of_char c = 0x80 + b" "(of_char c :: nat) mod 64 = b"
    "c = char_of (0x80 + b)"
proof -
  have "0x80 \<le> (of_char c :: nat)" "(of_char c :: nat) < 0x80 + 64" "(64::nat) dvd 0x80"
    using assms by simp_all
  then show ?thesis using that by (rule lead_byte)
qed


lemma decode_valid:
  assumes ok: "\<not> (fst (DecodeRuneInString (c # cs)) = RuneError
                  \<and> snd (DecodeRuneInString (c # cs)) = 1)"
  shows "encoderune (fst (DecodeRuneInString (c # cs)))
           = take (snd (DecodeRuneInString (c # cs))) (c # cs)
         \<and> scalar (fst (DecodeRuneInString (c # cs)))"
proof -
  let ?s0 = "of_char c :: nat"
  have s0_le: "?s0 < 256" by simp
  consider (ascii) "?s0 < 0x80"
    | (bad) "0x80 \<le> ?s0" "?s0 < 0xC2 \<or> 0xF4 < ?s0"
    | (two) "0xC2 \<le> ?s0" "?s0 < 0xE0"
    | (three) "0xE0 \<le> ?s0" "?s0 < 0xF0"
    | (four) "0xF0 \<le> ?s0" "?s0 \<le> 0xF4"
    by linarith
  then show ?thesis
  proof cases
    case ascii
    have "char_of ?s0 = c" by simp
    with ascii show ?thesis by (simp add: enc1 scalar_def)
  next
    case bad
    then have "DecodeRuneInString (c # cs) = (RuneError, 1)" by (rule Decode0)
    with ok show ?thesis by simp
  next
    case two
    note D = Decode2 [OF two, of cs]
    from ok D obtain c1 cs1 where cs: "cs = c1 # cs1" by (cases cs) auto
    from ok D cs have r1: "\<not> ((of_char c1 :: nat) < 0x80 \<or> 0xBF < (of_char c1 :: nat))"
      by (auto split: if_splits)
    from two have "0xC0 \<le> ?s0" "?s0 < 0xC0 + 32" "(32::nat) dvd 0xC0" by simp_all
    then obtain a where a: "a < 32" "?s0 = 0xC0 + a" "?s0 mod 32 = a" "c = char_of (0xC0 + a)"
      by (rule lead_byte)
    from r1 obtain b where b: "b < 64" "(of_char c1 :: nat) mod 64 = b" "c1 = char_of (0x80 + b)"
      by (rule cont_byte)
    from two a have a2: "2 \<le> a" by simp
    have val: "DecodeRuneInString (c # cs) = (a * 64 + b, 2)"
      using D cs r1 a(3) b(2) by simp
    have "a * 64 + b < 0xD800" using a(1) b(1) by simp
    then show ?thesis
      unfolding val using enc2 [OF a2 a(1) b(1)] a(4) b(3) cs by (simp add: scalar_def)
  next
    case three
    note D = Decode3 [OF three, of cs]
    from ok D obtain c1 c2 cs2 where cs: "cs = c1 # c2 # cs2"
      by (cases cs; cases "tl cs") auto
    from ok D cs have acc: "\<not> ((of_char c1 :: nat) < fst (acceptRange ?s0)
        \<or> snd (acceptRange ?s0) < (of_char c1 :: nat))"
      by (auto split: if_splits)
    from ok D cs acc have r2: "\<not> ((of_char c2 :: nat) < 0x80 \<or> 0xBF < (of_char c2 :: nat))"
      by (auto split: if_splits)
    from acc have r1: "\<not> ((of_char c1 :: nat) < 0x80 \<or> 0xBF < (of_char c1 :: nat))"
      by (auto simp: acceptRange_def split: if_splits)
    from three have "0xE0 \<le> ?s0" "?s0 < 0xE0 + 16" "(16::nat) dvd 0xE0" by simp_all
    then obtain a where a: "a < 16" "?s0 = 0xE0 + a" "?s0 mod 16 = a" "c = char_of (0xE0 + a)"
      by (rule lead_byte)
    from r1 obtain b where b: "b < 64" "(of_char c1 :: nat) = 0x80 + b"
       "(of_char c1 :: nat) mod 64 = b" "c1 = char_of (0x80 + b)"
      by (rule cont_byte)
    from r2 obtain d where d: "d < 64" "(of_char c2 :: nat) mod 64 = d" "c2 = char_of (0x80 + d)"
      by (rule cont_byte)
    have val: "DecodeRuneInString (c # cs) = (a * 4096 + b * 64 + d, 3)"
      using D cs acc r2 a(3) b(3) d(2) by simp
    have lo: "a = 0 \<Longrightarrow> 32 \<le> b" using acc a(2) b(2) by (simp add: acceptRange_def)
    have hi: "a = 13 \<Longrightarrow> b < 32" using acc a(2) b(2) by (simp add: acceptRange_def)
    have ge: "0x800 \<le> a * 4096 + b * 64 + d" using lo by (cases "a = 0") simp_all
    have ns: "a * 4096 + b * 64 + d < 0xD800 \<or> 0xE000 \<le> a * 4096 + b * 64 + d"
    proof -
      consider "a < 13" | "a = 13" | "13 < a" by linarith
      then show ?thesis
      proof cases
        case 1 then show ?thesis using b(1) d(1) by simp
      next
        case 2 then show ?thesis using hi d(1) by simp
      next
        case 3 then show ?thesis by simp
      qed
    qed
    then have ns': "\<not> (0xD800 \<le> a * 4096 + b * 64 + d \<and> a * 4096 + b * 64 + d \<le> 0xDFFF)"
      by linarith
    have "a * 4096 + b * 64 + d \<le> 0x10FFFF" using a(1) b(1) d(1) by simp
    with ns have "scalar (a * 4096 + b * 64 + d)" by (simp add: scalar_def)
    then show ?thesis
      unfolding val using enc3 [OF a(1) b(1) d(1) ge ns'] a(4) b(4) d(3) cs by simp
  next
    case four
    note D = Decode4 [OF four, of cs]
    from ok D obtain c1 c2 c3 cs3 where cs: "cs = c1 # c2 # c3 # cs3"
      by (cases cs; cases "tl cs"; cases "tl (tl cs)") auto
    from ok D cs have acc: "\<not> ((of_char c1 :: nat) < fst (acceptRange ?s0)
        \<or> snd (acceptRange ?s0) < (of_char c1 :: nat))"
      by (auto split: if_splits)
    from ok D cs acc have r2: "\<not> ((of_char c2 :: nat) < 0x80 \<or> 0xBF < (of_char c2 :: nat))"
      by (auto split: if_splits)
    from ok D cs acc r2 have r3: "\<not> ((of_char c3 :: nat) < 0x80 \<or> 0xBF < (of_char c3 :: nat))"
      by (auto split: if_splits)
    from acc have r1: "\<not> ((of_char c1 :: nat) < 0x80 \<or> 0xBF < (of_char c1 :: nat))"
      by (auto simp: acceptRange_def split: if_splits)
    from four have "0xF0 \<le> ?s0" "?s0 < 0xF0 + 8" "(8::nat) dvd 0xF0" by simp_all
    then obtain a where a: "a < 8" "?s0 = 0xF0 + a" "?s0 mod 8 = a" "c = char_of (0xF0 + a)"
      by (rule lead_byte)
    from four a(2) have a4: "a \<le> 4" by simp
    from r1 obtain b where b: "b < 64" "(of_char c1 :: nat) = 0x80 + b"
       "(of_char c1 :: nat) mod 64 = b" "c1 = char_of (0x80 + b)"
      by (rule cont_byte)
    from r2 obtain d where d: "d < 64" "(of_char c2 :: nat) mod 64 = d" "c2 = char_of (0x80 + d)"
      by (rule cont_byte)
    from r3 obtain e where e: "e < 64" "(of_char c3 :: nat) mod 64 = e" "c3 = char_of (0x80 + e)"
      by (rule cont_byte)
    let ?r = "a * 262144 + b * 4096 + d * 64 + e"
    have val: "DecodeRuneInString (c # cs) = (?r, 4)"
      using D cs acc r2 r3 a(3) b(3) d(2) e(2) by simp
    have lo: "a = 0 \<Longrightarrow> 16 \<le> b" using acc a(2) b(2) by (simp add: acceptRange_def)
    have hi: "a = 4 \<Longrightarrow> b < 16" using acc a(2) b(2) by (simp add: acceptRange_def)
    have ge: "0x10000 \<le> ?r" using lo by (cases "a = 0") simp_all
    have le: "?r \<le> 0x10FFFF"
    proof (cases "a = 4")
      case True then show ?thesis using hi d(1) e(1) by simp
    next
      case False
      with a4 have "a \<le> 3" by simp
      then show ?thesis using b(1) d(1) e(1) by simp
    qed
    from ge le have "scalar ?r" by (simp add: scalar_def)
    then show ?thesis
      unfolding val using enc4 [OF a(1) b(1) d(1) e(1) ge le] a(4) b(4) d(3) e(3) cs by simp
  qed
qed


lemma runes_valid:
  "ValidString s \<Longrightarrow> string_of_runes (runes s) = s \<and> list_all scalar (runes s)"
proof (induction s rule: runes.induct)
  case (1 s)
  show ?case
  proof (cases "s = []")
    case True
    then show ?thesis by (simp add: runes.simps string_of_runes_def)
  next
    case False
    then obtain c cs where s: "s = c # cs" by (cases s) auto
    let ?d = "DecodeRuneInString s"
    from "1.prems" False
    have ok: "\<not> (fst ?d = RuneError \<and> snd ?d = 1)" and rest: "ValidString (drop (snd ?d) s)"
      by (simp_all add: ValidString.simps [of s])
    from "1.IH" [OF False rest]
    have IH: "string_of_runes (runes (drop (snd ?d) s)) = drop (snd ?d) s"
      "list_all scalar (runes (drop (snd ?d) s))" by simp_all
    from decode_valid [of c cs] ok s
    have enc: "encoderune (fst ?d) = take (snd ?d) s" and sc: "scalar (fst ?d)" by simp_all
    have r: "runes s = fst ?d # runes (drop (snd ?d) s)"
      using False by (simp add: runes.simps [of s])
    have "string_of_runes (runes s) = take (snd ?d) s @ drop (snd ?d) s"
      unfolding r using enc IH(1) by (simp add: string_of_runes_def)
    then show ?thesis unfolding r using sc IH(2) by simp
  qed
qed

lemma utf16_Decode_single:
  "u < 0xD800 \<or> 0xE000 \<le> u \<Longrightarrow> utf16_Decode (u # us) = u # utf16_Decode us"
  by (cases us) simp_all

lemma utf16_roundtrip:
  "list_all scalar rs \<Longrightarrow> utf16_Decode (utf16_Encode rs) = rs
     \<and> list_all (\<lambda>u. u < 65536) (utf16_Encode rs)"
proof (induction rs)
  case Nil
  then show ?case by simp
next
  case (Cons v vs)
  then have IH: "utf16_Decode (utf16_Encode vs) = vs"
    "list_all (\<lambda>u. u < 65536) (utf16_Encode vs)" and sc: "scalar v" by simp_all
  show ?case
  proof (cases "v < 0x10000")
    case True
    with sc have b: "v < 0xD800 \<or> (0xE000 \<le> v \<and> v < 0x10000)" by (auto simp: scalar_def)
    then have e: "utf16_Encode (v # vs) = v # utf16_Encode vs" using True by simp
    from b have "v < 0xD800 \<or> 0xE000 \<le> v" by blast
    then show ?thesis unfolding e using IH True by (simp add: utf16_Decode_single)
  next
    case False
    with sc have range: "0x10000 \<le> v" "v \<le> 0x10FFFF" by (auto simp: scalar_def)
    define w where "w = v - 0x10000"
    have w: "w < 0x100000" "v = w + 0x10000" using range by (simp_all add: w_def)
    define h where "h = w div 1024"
    define l where "l = w mod 1024"
    have hl: "h < 1024" "l < 1024" "w = h * 1024 + l"
      using w(1) by (simp_all add: h_def l_def)
    have h_mod: "h mod 1024 = h" using hl(1) by simp
    have er: "utf16_EncodeRune v = (0xD800 + h, 0xDC00 + l)"
      by (simp add: utf16_EncodeRune_def w_def [symmetric] h_def [symmetric] l_def [symmetric] h_mod)
    have small: "(0xD800 + h) mod 65536 = 0xD800 + h" "(0xDC00 + l) mod 65536 = 0xDC00 + l"
      using hl(1,2) by simp_all
    have e: "utf16_Encode (v # vs) = (0xD800 + h) # (0xDC00 + l) # utf16_Encode vs"
      using False range er small by simp
    have d: "utf16_DecodeRune (0xD800 + h) (0xDC00 + l) = v"
      by (simp add: utf16_DecodeRune_def w(2) hl(3))
    show ?thesis unfolding e using IH hl(1,2) d by simp
  qed
qed

lemma ucs2_units_bytes:
  "list_all (\<lambda>u. u < 65536) us \<Longrightarrow> ucs2_units (ucs2_bytes us) = us"
proof (induction us)
  case Nil
  then show ?case by simp
next
  case (Cons u us)
  then have u: "u < 65536" by simp
  have "u div 256 < 256" using u by simp
  then have "(u div 256) mod 256 = u div 256" by simp
  moreover have "u div 256 * 256 < 65536" using \<open>u div 256 < 256\<close> by simp
  ultimately have "((u div 256) mod 256 * 256) mod 65536 + u mod 256 = u"
    by simp
  then show ?case using Cons by simp
qed

lemma ucs2_bytes_shape:
  "length (ucs2_bytes us) = 2 * length us \<and> list_all (\<lambda>b. b < 256) (ucs2_bytes us)"
  by (induction us) simp_all


lemma hextable_digit:
  assumes "n < 16"
  shows "fromHexChar (hextable ! n) = Some n"
proof -
  from assms have "n \<in> {0, 1, 2, 3, 4, 5, 6, 7, 8, 9, 10, 11, 12, 13, 14, 15}"
    by simp arith
  then show ?thesis
    by (auto simp: hextable_def fromHexChar_def)
qed

lemma hextable_mem: "n < 16 \<Longrightarrow> hextable ! n \<in> set hextable"
  by (rule nth_mem) (simp add: hextable_def)

lemma hex_roundtrip:
  "list_all (\<lambda>b. b < 256) bs \<Longrightarrow> hex_DecodeString (hex_EncodeToString bs) = Inr bs"
proof (induction bs)
  case Nil
  then show ?case by simp
next
  case (Cons b bs)
  then have b: "b < 256" and IH: "hex_DecodeString (hex_EncodeToString bs) = Inr bs"
    by simp_all
  have "b div 16 < 16" "b mod 16 < 16" using b by simp_all
  then have "fromHexChar (hextable ! (b div 16)) = Some (b div 16)"
    "fromHexChar (hextable ! (b mod 16)) = Some (b mod 16)"
    by (simp_all add: hextable_digit)
  then show ?case using IH by simp
qed

lemma hex_chars:
  "list_all (\<lambda>b. b < 256) bs \<Longrightarrow> set (hex_EncodeToString bs) \<subseteq> set hextable"
proof (induction bs)
  case Nil
  then show ?case by simp
next
  case (Cons b bs)
  then have b: "b < 256" by simp
  have "b div 16 < 16" "b mod 16 < 16" using b by simp_all
  then have "hextable ! (b div 16) \<in> set hextable" "hextable ! (b mod 16) \<in> set hextable"
    by (simp_all add: hextable_mem)
  then show ?case using Cons by simp
qed

lemma hex_length: "length (hex_EncodeToString bs) = 2 * length bs"
  by (induction bs) simp_all

lemma EncodeUCS2_chars: "set (EncodeUCS2 s) \<subseteq> set hextable"
  unfolding EncodeUCS2_def using hex_chars ucs2_bytes_shape by blast

lemma EncodeUCS2_length: "length (EncodeUCS2 s) = 4 * length (utf16_Encode (runes s))"
  by (simp add: EncodeUCS2_def hex_length ucs2_bytes_shape)

text \<open>
  Claim C4.  For every valid UTF-8 string \<open>s\<close>, surrogate-pair characters included,
  \<^verbatim>\<open>DecodeUCS2(EncodeUCS2(s))\<close> succeeds and returns \<open>s\<close>.
\<close>

theorem DecodeUCS2_EncodeUCS2:
  assumes "ValidString s"
  shows "DecodeUCS2 (EncodeUCS2 s) = Inr s"
proof -
  let ?us = "utf16_Encode (runes s)"
  from runes_valid [OF assms]
  have str: "string_of_runes (runes s) = s" and sc: "list_all scalar (runes s)" by simp_all
  from utf16_roundtrip [OF sc]
  have dec: "utf16_Decode ?us = runes s" and units: "list_all (\<lambda>u. u < 65536) ?us"
    by simp_all
  have bytes: "list_all (\<lambda>b. b < 256) (ucs2_bytes ?us)"
    and len: "length (ucs2_bytes ?us) = 2 * length ?us"
    using ucs2_bytes_shape by simp_all
  have "CHR '' '' \<notin> set hextable" by (simp add: hextable_def)
  with EncodeUCS2_chars [of s] have "\<forall>c \<in> set (EncodeUCS2 s). c \<noteq> CHR '' ''" by blast
  then have nosp: "filter (\<lambda>c. c \<noteq> CHR '' '') (EncodeUCS2 s) = EncodeUCS2 s"
    by (simp add: filter_id_conv)
  have hex: "hex_DecodeString (EncodeUCS2 s) = Inr (ucs2_bytes ?us)"
    unfolding EncodeUCS2_def by (rule hex_roundtrip [OF bytes])
  show ?thesis
    unfolding DecodeUCS2_def nosp hex
    using len ucs2_units_bytes [OF units] dec str by simp
qed

theorem DecodeUCS2_EncodeUCS2_witness:
  "ValidString [CHR ''H'', CHR 0xD0, CHR 0x9F, CHR 0xF0, CHR 0x9F, CHR 0x91, CHR 0x8B]
   \<and> DecodeUCS2 (EncodeUCS2 [CHR ''H'', CHR 0xD0, CHR 0x9F, CHR 0xF0, CHR 0x9F, CHR 0x91, CHR 0x8B])
       = Inr [CHR ''H'', CHR 0xD0, CHR 0x9F, CHR 0xF0, CHR 0x9F, CHR 0x91, CHR 0x8B]"
proof -
  have v: "ValidString [CHR ''H'', CHR 0xD0, CHR 0x9F, CHR 0xF0, CHR 0x9F, CHR 0x91, CHR 0x8B]"
    by (simp add: ValidString.simps Let_def acceptRange_def RuneError_def)
  from DecodeUCS2_EncodeUCS2 [OF v] v show ?thesis by simp
qed

text \<open>
  What holds of the output of \<^verbatim>\<open>EncodeUCS2\<close> for every input: its characters are
  taken from \<^verbatim>\<open>hextable\<close>, the lower-case digits of \<^verbatim>\<open>hex.EncodeToString\<close>, there
  is no separator, and there are four characters for each UTF-16 unit.
\<close>

lemma EncodeUCS2_shape:
  "set (EncodeUCS2 s) \<subseteq> set ''0123456789abcdef'' \<and> length (EncodeUCS2 s) mod 4 = 0"
  using EncodeUCS2_chars [of s] by (simp add: EncodeUCS2_length hextable_def)

text \<open>
  Claim C8.  \<^verbatim>\<open>EncodeUCS2(s)\<close> is said to consist of upper-case hexadecimal digits only.
  On the example of the package's README, the Cyrillic word of seven characters whose
  documented encoding starts with \<^verbatim>\<open>041F\<close>, the function returns lower-case letters:
  the digit \<^verbatim>\<open>f\<close> of \<^verbatim>\<open>041f\<close> is not an upper-case hexadecimal digit.
\<close>

theorem EncodeUCS2_README_example_lowercase:
  "EncodeUCS2 [CHR 0xD0, CHR 0x9F, CHR 0xD1, CHR 0x80, CHR 0xD0, CHR 0xB8, CHR 0xD0, CHR 0xB2,
               CHR 0xD0, CHR 0xB5, CHR 0xD1, CHR 0x82, CHR ''!'']
     = ''041f044004380432043504420021''
   \<and> \<not> set (EncodeUCS2 [CHR 0xD0, CHR 0x9F, CHR 0xD1, CHR 0x80, CHR 0xD0, CHR 0xB8, CHR 0xD0,
               CHR 0xB2, CHR 0xD0, CHR 0xB5, CHR 0xD1, CHR 0x82, CHR ''!''])
        \<subseteq> set ''0123456789ABCDEF''"
  by (simp add: EncodeUCS2_def runes.simps Let_def acceptRange_def hextable_def)

section \<open>Properties of \<^verbatim>\<open>TrimSpace\<close> and \<^verbatim>\<open>splitText\<close>\<close>

lemma IsSpace_RuneError: "\<not> IsSpace RuneError"
  by (simp add: IsSpace_def RuneError_def)

lemma TrimLeftSpace_length: "length (TrimLeftSpace s) \<le> length s"
proof (induction s rule: TrimLeftSpace.induct)
  case (1 s)
  show ?case
  proof (cases "s \<noteq> [] \<and> IsSpace (fst (DecodeRuneInString s))")
    case True
    with "1.IH" have "length (TrimLeftSpace (drop (snd (DecodeRuneInString s)) s))
        \<le> length (drop (snd (DecodeRuneInString s)) s)" by simp
    with True show ?thesis by (simp add: TrimLeftSpace.simps [of s])
  next
    case False
    then show ?thesis by (auto simp: TrimLeftSpace.simps [of s])
  qed
qed

lemma TrimRightSpace_prefix: "\<exists>k. TrimRightSpace s = take k s"
proof (induction s rule: TrimRightSpace.induct)
  case (1 s)
  show ?case
  proof (cases "s \<noteq> [] \<and> IsSpace (fst (DecodeLastRuneInString s))")
    case True
    let ?t = "take (length s - snd (DecodeLastRuneInString s)) s"
    from "1.IH" True obtain k where "TrimRightSpace ?t = take k ?t" by auto
    then have "TrimRightSpace s = take (min k (length s - snd (DecodeLastRuneInString s))) s"
      using True by (simp add: TrimRightSpace.simps [of s])
    then show ?thesis by blast
  next
    case False
    then have "TrimRightSpace s = take (length s) s"
      by (auto simp: TrimRightSpace.simps [of s])
    then show ?thesis by blast
  qed
qed

lemma TrimRightSpace_length: "length (TrimRightSpace s) \<le> length s"
proof -
  obtain k where "TrimRightSpace s = take k s" using TrimRightSpace_prefix by blast
  then show ?thesis by simp
qed

lemma TrimSpace_length: "length (TrimSpace s) \<le> length s"
  unfolding TrimSpace_def
  using TrimRightSpace_length [of "TrimLeftSpace s"] TrimLeftSpace_length [of s] by linarith

lemma TrimLeftSpace_head:
  "TrimLeftSpace s = [] \<or> \<not> IsSpace (fst (DecodeRuneInString (TrimLeftSpace s)))"
proof (induction s rule: TrimLeftSpace.induct)
  case (1 s)
  show ?case
  proof (cases "s \<noteq> [] \<and> IsSpace (fst (DecodeRuneInString s))")
    case True
    with "1.IH" show ?thesis by (simp add: TrimLeftSpace.simps [of s])
  next
    case False
    then show ?thesis by (auto simp: TrimLeftSpace.simps [of s])
  qed
qed

lemma TrimRightSpace_idem: "TrimRightSpace (TrimRightSpace s) = TrimRightSpace s"
proof (induction s rule: TrimRightSpace.induct)
  case (1 s)
  show ?case
  proof (cases "s \<noteq> [] \<and> IsSpace (fst (DecodeLastRuneInString s))")
    case True
    with "1.IH" show ?thesis by (simp add: TrimRightSpace.simps [of s])
  next
    case False
    then have "TrimRightSpace s = s" by (auto simp: TrimRightSpace.simps [of s])
    then show ?thesis by simp
  qed
qed


lemma decode_append:
  assumes ok: "\<not> (fst (DecodeRuneInString (c # cs)) = RuneError
                  \<and> snd (DecodeRuneInString (c # cs)) = 1)"
  shows "DecodeRuneInString (c # cs @ v) = DecodeRuneInString (c # cs)"
proof -
  let ?s0 = "of_char c :: nat"
  consider (ascii) "?s0 < 0x80"
    | (bad) "0x80 \<le> ?s0" "?s0 < 0xC2 \<or> 0xF4 < ?s0"
    | (two) "0xC2 \<le> ?s0" "?s0 < 0xE0"
    | (three) "0xE0 \<le> ?s0" "?s0 < 0xF0"
    | (four) "0xF0 \<le> ?s0" "?s0 \<le> 0xF4"
    by linarith
  then show ?thesis
  proof cases
    case ascii
    then show ?thesis by (simp add: Decode1)
  next
    case bad
    then show ?thesis by (simp add: Decode0)
  next
    case two
    note D = Decode2 [OF two]
    from ok D [of cs] obtain c1 cs1 where cs: "cs = c1 # cs1" by (cases cs) auto
    show ?thesis using D [of cs] D [of "cs @ v"]
      by (simp add: cs del: DecodeRuneInString.simps)
  next
    case three
    note D = Decode3 [OF three]
    from ok D [of cs] obtain c1 c2 cs2 where cs: "cs = c1 # c2 # cs2"
      by (cases cs; cases "tl cs") auto
    show ?thesis using D [of cs] D [of "cs @ v"]
      by (simp add: cs del: DecodeRuneInString.simps)
  next
    case four
    note D = Decode4 [OF four]
    from ok D [of cs] obtain c1 c2 c3 cs3 where cs: "cs = c1 # c2 # c3 # cs3"
      by (cases cs; cases "tl cs"; cases "tl (tl cs)") auto
    show ?thesis using D [of cs] D [of "cs @ v"]
      by (simp add: cs del: DecodeRuneInString.simps)
  qed
qed

lemma TrimLeftSpace_take:
  assumes "t = [] \<or> \<not> IsSpace (fst (DecodeRuneInString t))"
  shows "TrimLeftSpace (take k t) = take k t"
proof (cases "take k t = []")
  case True
  show ?thesis unfolding True by (simp add: TrimLeftSpace.simps [of "[]"])
next
  case False
  then obtain c cs where u: "take k t = c # cs" by (cases "take k t") auto
  have t: "t = (c # cs) @ drop k t" using u append_take_drop_id [of k t] by simp
  have "\<not> IsSpace (fst (DecodeRuneInString (c # cs)))"
  proof
    assume sp: "IsSpace (fst (DecodeRuneInString (c # cs)))"
    then have "fst (DecodeRuneInString (c # cs)) \<noteq> RuneError"
      using IsSpace_RuneError by auto
    then have "DecodeRuneInString (c # cs @ drop k t) = DecodeRuneInString (c # cs)"
      by (intro decode_append) simp
    with t have "DecodeRuneInString t = DecodeRuneInString (c # cs)" by simp
    with sp assms t show False by auto
  qed
  then show ?thesis unfolding u by (simp add: TrimLeftSpace.simps [of "c # cs"])
qed

lemma TrimSpace_idem: "TrimSpace (TrimSpace s) = TrimSpace s"
proof -
  obtain k where k: "TrimRightSpace (TrimLeftSpace s) = take k (TrimLeftSpace s)"
    using TrimRightSpace_prefix by blast
  have "TrimLeftSpace (TrimRightSpace (TrimLeftSpace s)) = TrimRightSpace (TrimLeftSpace s)"
    unfolding k using TrimLeftSpace_head [of s] by (rule TrimLeftSpace_take)
  then show ?thesis by (simp add: TrimSpace_def TrimRightSpace_idem)
qed

lemma TrimSpace_Nil: "TrimSpace [] = []"
  by (simp add: TrimSpace_def TrimLeftSpace.simps [of "[]"] TrimRightSpace.simps [of "[]"])

lemma findSplit_range:
  "1 \<le> maxLen \<Longrightarrow> i \<le> maxLen \<Longrightarrow>
   1 \<le> findSplit tx maxLen i \<and> findSplit tx maxLen i \<le> maxLen"
proof (induction tx maxLen i rule: findSplit.induct)
  case (1 tx maxLen i)
  show ?case
  proof (cases "maxLen - 20 < i \<and> 0 < i")
    case True
    show ?thesis
    proof (cases "tx ! nat i = CHR '' ''")
      case True
      with \<open>maxLen - 20 < i \<and> 0 < i\<close> "1.prems" show ?thesis
        by (simp add: findSplit.simps [of tx maxLen i])
    next
      case False
      with True "1.IH" "1.prems" show ?thesis
        by (simp add: findSplit.simps [of tx maxLen i])
    qed
  next
    case False
    with "1.prems" show ?thesis by (auto simp: findSplit.simps [of tx maxLen i])
  qed
qed

lemma splitText_loop_terminates:
  assumes "1 \<le> maxLen"
  shows "\<exists>ps. splitText_loop tx maxLen parts = Some (Inr (parts @ ps))
              \<and> (\<forall>p \<in> set ps. int (length p) \<le> maxLen)"
proof (induction "length tx" arbitrary: tx parts rule: less_induct)
  case less
  show ?case
  proof (cases "0 < length tx")
    case False
    then have "splitText_loop tx maxLen parts = Some (Inr (parts @ []))"
      by (subst splitText_loop.simps) simp
    then show ?thesis by auto
  next
    case True
    show ?thesis
    proof (cases "int (length tx) \<le> maxLen")
      case True
      with \<open>0 < length tx\<close>
      have "splitText_loop tx maxLen parts = Some (Inr (parts @ [tx]))"
        by (simp add: splitText_loop.simps [of tx])
      with True show ?thesis by auto
    next
      case False
      define k where "k = findSplit tx maxLen (maxLen - 1)"
      have k: "1 \<le> k" "k \<le> maxLen"
        using findSplit_range [OF assms, of "maxLen - 1" tx] by (simp_all add: k_def)
      define text' where "text' = TrimSpace (drop (nat k) tx)"
      have "length text' \<le> length tx - nat k"
        using TrimSpace_length [of "drop (nat k) tx"] by (simp add: text'_def)
      with k True have "length text' < length tx" by linarith
      from less [OF this, of "parts @ [take (nat k) tx]"]
      obtain ps where ps: "splitText_loop text' maxLen (parts @ [take (nat k) tx])
            = Some (Inr ((parts @ [take (nat k) tx]) @ ps))"
          "\<forall>p \<in> set ps. int (length p) \<le> maxLen" by blast
      have step: "splitText_loop tx maxLen parts
            = splitText_loop text' maxLen (parts @ [take (nat k) tx])"
        using True False k
        by (simp add: splitText_loop.simps [of tx] Let_def k_def [symmetric] text'_def)
      have "int (length (take (nat k) tx)) \<le> maxLen" using k False by simp
      with ps step show ?thesis
        by (intro exI [of _ "take (nat k) tx # ps"]) simp
    qed
  qed
qed

lemma splitText_loop_diverges:
  assumes "splitText_loop tx maxLen parts = Some y"
  shows "\<not> (maxLen = 0 \<and> TrimSpace tx \<noteq> [])"
  using assms
proof (induction rule: splitText_loop.raw_induct [rotated 1, consumes 1, case_names step])
  case (step f tx maxLen parts y)
  show ?case
  proof
    assume a: "maxLen = 0 \<and> TrimSpace tx \<noteq> []"
    then have ne: "tx \<noteq> []" using TrimSpace_Nil by auto
    have fs: "findSplit tx 0 (- 1) = 0" by (simp add: findSplit.simps)
    from step(2) a ne fs have "f (TrimSpace tx) 0 (parts @ [[]]) = Some y"
      by (simp add: Let_def)
    from step(1) [OF this] a show False by (simp add: TrimSpace_idem)
  qed
qed

lemma splitText_loop_blank:
  assumes "tx \<noteq> []" "TrimSpace tx = []"
  shows "splitText_loop tx 0 parts = Some (Inr (parts @ [[]]))"
proof -
  have f: "findSplit tx 0 (- 1) = 0" by (simp add: findSplit.simps)
  have "splitText_loop tx 0 parts = splitText_loop [] 0 (parts @ [[]])"
    using assms by (subst splitText_loop.simps) (simp add: f)
  also have "\<dots> = Some (Inr (parts @ [[]]))"
    by (subst splitText_loop.simps) simp
  finally show ?thesis .
qed

lemma TrimSpace_blank: "TrimSpace '' '' = []"
  by (simp add: TrimSpace_def TrimLeftSpace.simps IsSpace_def TrimRightSpace.simps)

text \<open>
  Claim C10, as stated, says that with \<open>maxLen = 0\<close> the loop does not terminate on any
  text that is not empty.  On a text of one space it does: the cut is at 0, the empty
  part is appended, and trimming leaves nothing.
\<close>

theorem splitText_blank_terminates:
  "'' '' \<noteq> [] \<and> splitText '' '' 0 = Some (Inr [[]])"
  using splitText_loop_blank [of "'' ''" "[]"] TrimSpace_blank by (simp add: splitText_def)

text \<open>
  Claim C10, amended.  For every text and every \<open>maxLen \<ge> 1\<close>, \<^verbatim>\<open>splitText\<close> terminates
  and every part it returns has at most \<open>maxLen\<close> bytes; \<^verbatim>\<open>SendLongSMS\<close> calls it with
  \<open>maxLen = 150\<close> for a text of more than 160 bytes and sends the parts it returns; with
  \<open>maxLen = 0\<close> the loop does not terminate on a text that \<^verbatim>\<open>TrimSpace\<close> does not
  empty, and it returns the single empty part on a text of white space only.
\<close>

theorem splitText_terminates_bounded:
  "(1 \<le> maxLen \<longrightarrow>
      (\<exists>ps. splitText tx maxLen = Some (Inr ps) \<and> (\<forall>p \<in> set ps. int (length p) \<le> maxLen)))
   \<and> (160 < length tx \<longrightarrow>
      (\<exists>ps. splitText tx 150 = Some (Inr ps) \<and> (\<forall>p \<in> set ps. length p \<le> 150)
          \<and> SendLongSMS rr number tx p = Some (Inr (send_parts rr number ps 0 (length ps) p))))
   \<and> (TrimSpace tx \<noteq> [] \<longrightarrow> splitText tx 0 = None)
   \<and> (tx \<noteq> [] \<and> TrimSpace tx = [] \<longrightarrow> splitText tx 0 = Some (Inr [[]]))"
proof (intro conjI impI)
  assume "1 \<le> maxLen"
  from splitText_loop_terminates [OF this, of tx "[]"]
  show "\<exists>ps. splitText tx maxLen = Some (Inr ps) \<and> (\<forall>p \<in> set ps. int (length p) \<le> maxLen)"
    by (simp add: splitText_def)
next
  assume long: "160 < length tx"
  have "(1::int) \<le> 150" by simp
  from splitText_loop_terminates [OF this, of tx "[]"]
  obtain ps where ps: "splitText tx 150 = Some (Inr ps)" "\<forall>p \<in> set ps. int (length p) \<le> 150"
    by (auto simp: splitText_def)
  from long ps(1)
  have "SendLongSMS rr number tx p = Some (Inr (send_parts rr number ps 0 (length ps) p))"
    by (simp add: SendLongSMS_def maxSMSLength_def)
  with ps show "\<exists>ps. splitText tx 150 = Some (Inr ps) \<and> (\<forall>p \<in> set ps. length p \<le> 150)
      \<and> SendLongSMS rr number tx p = Some (Inr (send_parts rr number ps 0 (length ps) p))"
    by auto
next
  assume ne: "TrimSpace tx \<noteq> []"
  show "splitText tx 0 = None"
  proof (cases "splitText tx 0")
    case None
    then show ?thesis .
  next
    case (Some y)
    then have "splitText_loop tx 0 [] = Some y" by (simp add: splitText_def)
    from splitText_loop_diverges [OF this] ne show ?thesis by simp
  qed
next
  assume "tx \<noteq> [] \<and> TrimSpace tx = []"
  then show "splitText tx 0 = Some (Inr [[]])"
    using splitText_loop_blank [of tx "[]"] by (simp add: splitText_def)
qed

theorem splitText_terminates_bounded_witness:
  "(1::int) \<le> 10
   \<and> (\<exists>ps. splitText ''hello world'' 10 = Some (Inr ps) \<and> (\<forall>p \<in> set ps. int (length p) \<le> 10))
   \<and> 160 < length (replicate 161 (CHR ''a''))
   \<and> (\<exists>ps. splitText (replicate 161 (CHR ''a'')) 150 = Some (Inr ps)
          \<and> (\<forall>p \<in> set ps. length p \<le> 150)
          \<and> SendLongSMS readResponse ''+79991234567'' (replicate 161 (CHR ''a''))
               \<lparr>trace = [], write_fails = (\<lambda>n. False), replies = (\<lambda>n. []),
                writes_done = 0, reads_done = 0\<rparr>
             = Some (Inr (send_parts readResponse ''+79991234567'' ps 0 (length ps)
                 \<lparr>trace = [], write_fails = (\<lambda>n. False), replies = (\<lambda>n. []),
                  writes_done = 0, reads_done = 0\<rparr>)))
   \<and> TrimSpace ''x'' \<noteq> [] \<and> splitText ''x'' 0 = None
   \<and> [CHR 0x09, CHR 0x20] \<noteq> [] \<and> TrimSpace [CHR 0x09, CHR 0x20] = []
   \<and> splitText [CHR 0x09, CHR 0x20] 0 = Some (Inr [[]])"
proof -
  have t: "TrimSpace ''x'' \<noteq> []"
    by (simp add: TrimSpace_def TrimLeftSpace.simps IsSpace_def TrimRightSpace.simps
        DecodeLastRuneInString_def)
  have l: "160 < length (replicate 161 (CHR ''a''))" by simp
  have b: "TrimSpace [CHR 0x09, CHR 0x20] = []"
    by (simp add: TrimSpace_def TrimLeftSpace.simps IsSpace_def TrimRightSpace.simps)
  show ?thesis
    using splitText_terminates_bounded [of 10 "''hello world''"]
      splitText_terminates_bounded [of 1 "replicate 161 (CHR ''a'')" readResponse
        "''+79991234567''"
        "\<lparr>trace = [], write_fails = (\<lambda>n. False), replies = (\<lambda>n. []),
          writes_done = 0, reads_done = 0\<rparr>"]
      splitText_terminates_bounded [of 1 "''x''"]
      splitText_terminates_bounded [of 1 "[CHR 0x09, CHR 0x20]"] t l b
    by simp
qed

section \<open>The stop channel and the event channel\<close>

text \<open>
  Claim C9.  After \<^verbatim>\<open>StopEventListener\<close> has closed the stop channel, a second call of
  \<^verbatim>\<open>StopEventListener\<close> and a call of \<^verbatim>\<open>Close\<close> both close the closed channel and
  panic; neither function looks whether the channel is closed already.
\<close>

theorem stop_channel_closed_twice:
  "(stopEventsCh m = Some ChanOpen \<longrightarrow>
      (\<exists>m'. StopEventListener m = Inr m' \<and> stopEventsCh m' = Some ChanClosed
          \<and> StopEventListener m' = Inl CloseOfClosedChannel
          \<and> Close close_err m' = Inl CloseOfClosedChannel))
   \<and> (stopEventsCh m = Some ChanClosed \<longrightarrow>
      StopEventListener m = Inl CloseOfClosedChannel
      \<and> Close close_err m = Inl CloseOfClosedChannel)"
proof (intro conjI impI)
  assume opened: "stopEventsCh m = Some ChanOpen"
  define m' where "m' = m\<lparr>stopEventsCh := Some ChanClosed\<rparr>"
  have first: "StopEventListener m = Inr m'"
    using opened by (simp add: StopEventListener_def close_chan_def m'_def)
  have closed: "stopEventsCh m' = Some ChanClosed"
    by (simp add: m'_def)
  then have "close_chan (the (stopEventsCh m')) = Inl CloseOfClosedChannel"
    by (simp add: close_chan_def)
  with closed have "StopEventListener m' = Inl CloseOfClosedChannel"
    and "Close close_err m' = Inl CloseOfClosedChannel"
    by (simp_all add: StopEventListener_def Close_def)
  with first closed
  show "\<exists>m'. StopEventListener m = Inr m' \<and> stopEventsCh m' = Some ChanClosed
          \<and> StopEventListener m' = Inl CloseOfClosedChannel
          \<and> Close close_err m' = Inl CloseOfClosedChannel"
    by blast
next
  assume closed: "stopEventsCh m = Some ChanClosed"
  then show "StopEventListener m = Inl CloseOfClosedChannel"
    by (simp add: StopEventListener_def close_chan_def)
next
  assume closed: "stopEventsCh m = Some ChanClosed"
  then show "Close close_err m = Inl CloseOfClosedChannel"
    by (simp add: Close_def close_chan_def)
qed

theorem stop_channel_closed_twice_witness:
  "stopEventsCh New_modem = Some ChanOpen
   \<and> (\<exists>m'. StopEventListener New_modem = Inr m' \<and> stopEventsCh m' = Some ChanClosed
          \<and> StopEventListener m' = Inl CloseOfClosedChannel
          \<and> Close None m' = Inl CloseOfClosedChannel)
   \<and> stopEventsCh (New_modem\<lparr>stopEventsCh := Some ChanClosed\<rparr>) = Some ChanClosed
   \<and> StopEventListener (New_modem\<lparr>stopEventsCh := Some ChanClosed\<rparr>)
       = Inl CloseOfClosedChannel
   \<and> Close None (New_modem\<lparr>stopEventsCh := Some ChanClosed\<rparr>) = Inl CloseOfClosedChannel"
  using stop_channel_closed_twice [of New_modem None]
    stop_channel_closed_twice [of "New_modem\<lparr>stopEventsCh := Some ChanClosed\<rparr>" None]
  by (simp add: New_modem_def)

lemma deliver_lines_cap:
  "eventChan_cap (deliver_lines parseEvent ls m) = eventChan_cap m"
  by (induction ls arbitrary: m) (simp_all add: try_send_def split: option.splits)

lemma deliver_lines_bounded:
  "length (eventChan m) \<le> eventChan_cap m \<Longrightarrow>
   length (eventChan (deliver_lines parseEvent ls m)) \<le> eventChan_cap m"
proof (induction ls arbitrary: m)
  case Nil
  then show ?case by simp
next
  case (Cons l ls)
  show ?case
  proof (cases "TrimSpace l \<noteq> [] \<and> parseEvent (TrimSpace l) \<noteq> None")
    case True
    then obtain ev where ev: "parseEvent (TrimSpace l) = Some ev" by auto
    have "length (eventChan (try_send ev m)) \<le> eventChan_cap (try_send ev m)"
      using Cons.prems by (simp add: try_send_def)
    from Cons.IH [OF this]
    have "length (eventChan (deliver_lines parseEvent ls (try_send ev m)))
        \<le> eventChan_cap (try_send ev m)" .
    moreover have "eventChan_cap (try_send ev m) = eventChan_cap m"
      by (simp add: try_send_def)
    ultimately
    have "length (eventChan (deliver_lines parseEvent ls (try_send ev m))) \<le> eventChan_cap m"
      by simp
    with True ev show ?thesis by simp
  next
    case False
    with Cons show ?thesis by (auto split: option.splits)
  qed
qed

text \<open>
  Claim C6, as stated, says that a drop counter is incremented by one for each event
  dropped.  The modem has no such counter: sending to the full channel leaves the whole
  state as it was, so no quantity read from the state has advanced.
\<close>

theorem no_drop_counter:
  "\<not> (\<exists>counter :: modem \<Rightarrow> nat.
        counter (try_send \<lparr>Type = EventNewSMS, Timestamp = 0, Data = []\<rparr>
                   (New_modem\<lparr>eventChan :=
                      replicate 100 \<lparr>Type = EventIncomingCall, Timestamp = 0, Data = []\<rparr>\<rparr>))
        = counter (New_modem\<lparr>eventChan :=
                      replicate 100 \<lparr>Type = EventIncomingCall, Timestamp = 0, Data = []\<rparr>\<rparr>)
          + 1)"
  by (simp add: try_send_def New_modem_def)

text \<open>
  Claim C6, amended.  The event channel is created with capacity 100; the listener's
  send never blocks: when the channel has room the event is appended, and when the
  channel is full the event is dropped and the state of the modem is unchanged (no
  counter is kept); the listener never changes the capacity nor fills the channel
  beyond it.
\<close>

theorem event_channel_bounded_drop:
  "eventChan_cap New_modem = 100 \<and> eventChan New_modem = []
   \<and> (length (eventChan m) < eventChan_cap m \<longrightarrow>
        try_send ev m = m\<lparr>eventChan := eventChan m @ [ev]\<rparr>)
   \<and> (eventChan_cap m \<le> length (eventChan m) \<longrightarrow> try_send ev m = m)
   \<and> eventChan_cap (deliver_lines parseEvent ls m) = eventChan_cap m
   \<and> (length (eventChan m) \<le> eventChan_cap m \<longrightarrow>
        length (eventChan (deliver_lines parseEvent ls m)) \<le> eventChan_cap m)"
  using deliver_lines_bounded [of m parseEvent ls]
  by (simp add: New_modem_def try_send_def deliver_lines_cap)

theorem event_channel_bounded_drop_witness:
  "length (eventChan New_modem) < eventChan_cap New_modem
   \<and> try_send \<lparr>Type = EventNewSMS, Timestamp = 0, Data = []\<rparr> New_modem
       = New_modem\<lparr>eventChan := [\<lparr>Type = EventNewSMS, Timestamp = 0, Data = []\<rparr>]\<rparr>
   \<and> eventChan_cap (New_modem\<lparr>eventChan :=
          replicate 100 \<lparr>Type = EventIncomingCall, Timestamp = 0, Data = []\<rparr>\<rparr>)
       \<le> length (eventChan (New_modem\<lparr>eventChan :=
          replicate 100 \<lparr>Type = EventIncomingCall, Timestamp = 0, Data = []\<rparr>\<rparr>))
   \<and> try_send \<lparr>Type = EventNewSMS, Timestamp = 0, Data = []\<rparr>
         (New_modem\<lparr>eventChan :=
            replicate 100 \<lparr>Type = EventIncomingCall, Timestamp = 0, Data = []\<rparr>\<rparr>)
       = New_modem\<lparr>eventChan :=
            replicate 100 \<lparr>Type = EventIncomingCall, Timestamp = 0, Data = []\<rparr>\<rparr>
   \<and> length (eventChan New_modem) \<le> eventChan_cap New_modem
   \<and> length (eventChan (deliver_lines (\<lambda>l. Some \<lparr>Type = EventNewSMS, Timestamp = 0, Data = []\<rparr>)
         [''RING'', ''RING''] New_modem)) \<le> eventChan_cap New_modem"
  using event_channel_bounded_drop [of New_modem "\<lparr>Type = EventNewSMS, Timestamp = 0, Data = []\<rparr>"
      "\<lambda>l. Some \<lparr>Type = EventNewSMS, Timestamp = 0, Data = []\<rparr>" "[''RING'', ''RING'']"]
    event_channel_bounded_drop [of "New_modem\<lparr>eventChan :=
            replicate 100 \<lparr>Type = EventIncomingCall, Timestamp = 0, Data = []\<rparr>\<rparr>"
      "\<lparr>Type = EventNewSMS, Timestamp = 0, Data = []\<rparr>"]
  by (simp add: New_modem_def)

section \<open>Properties of \<^verbatim>\<open>readResponse\<close>\<close>

lemma HasPrefix_iff: "HasPrefix s pre \<longleftrightarrow> (\<exists>b. s = pre @ b)"
proof
  assume "HasPrefix s pre"
  then have "s = pre @ drop (length pre) s"
    by (metis HasPrefix_def append_take_drop_id)
  then show "\<exists>b. s = pre @ b" by blast
next
  assume "\<exists>b. s = pre @ b"
  then show "HasPrefix s pre" by (auto simp: HasPrefix_def)
qed

lemma Contains_iff: "Contains s sub \<longleftrightarrow> (\<exists>a b. s = a @ sub @ b)"
proof (induction s)
  case Nil
  then show ?case by auto
next
  case (Cons c cs)
  show ?case
  proof
    assume "Contains (c # cs) sub"
    then consider "HasPrefix (c # cs) sub" | "Contains cs sub" by auto
    then show "\<exists>a b. c # cs = a @ sub @ b"
    proof cases
      case 1
      then obtain b where "c # cs = sub @ b" using HasPrefix_iff by blast
      then have "c # cs = [] @ sub @ b" by simp
      then show ?thesis by blast
    next
      case 2
      with Cons obtain a b where "cs = a @ sub @ b" by blast
      then have "c # cs = (c # a) @ sub @ b" by simp
      then show ?thesis by blast
    qed
  next
    assume "\<exists>a b. c # cs = a @ sub @ b"
    then obtain a b where ab: "c # cs = a @ sub @ b" by blast
    show "Contains (c # cs) sub"
    proof (cases a)
      case Nil
      with ab have "HasPrefix (c # cs) sub" using HasPrefix_iff by auto
      then show ?thesis by simp
    next
      case (Cons x a')
      with ab have "cs = a' @ sub @ b" by simp
      with Cons.IH have "Contains cs sub" by blast
      then show ?thesis by simp
    qed
  qed
qed

lemma Contains_append: "Contains s sub \<Longrightarrow> Contains (a @ s @ b) sub"
proof -
  assume "Contains s sub"
  then obtain x y where "s = x @ sub @ y" using Contains_iff by blast
  then have "a @ s @ b = (a @ x) @ sub @ (y @ b)" by simp
  then show ?thesis using Contains_iff by blast
qed

lemma Contains_inner: "Contains s (x @ sub @ y) \<Longrightarrow> Contains s sub"
proof -
  assume "Contains s (x @ sub @ y)"
  then obtain a b where "s = a @ (x @ sub @ y) @ b" using Contains_iff by blast
  then have "s = (a @ x) @ sub @ (y @ b)" by simp
  then show ?thesis using Contains_iff by blast
qed

lemma Contains_prefix: "Contains s sub \<Longrightarrow> Contains (s @ b) sub"
  using Contains_append [of s sub "[]" b] by simp

lemma HasPrefix_Contains: "HasPrefix s (sub @ y) \<Longrightarrow> Contains s sub"
proof -
  assume "HasPrefix s (sub @ y)"
  then obtain b where "s = (sub @ y) @ b" using HasPrefix_iff by blast
  then have "s = [] @ sub @ (y @ b)" by simp
  then show ?thesis using Contains_iff by blast
qed

lemma readResponse_loop_timeout:
  assumes "\<not> Contains (response @ received rs) ''OK''"
    and "\<not> Contains (response @ received rs) ''ERROR''"
  shows "readResponse_loop rs response =
    (if response @ received rs = [] then ([], Some (ErrorString ''timeout waiting for response''))
     else (response @ received rs, None))"
  using assms
proof (induction rs arbitrary: response)
  case Nil
  then show ?case by simp
next
  case (Cons r rs)
  show ?case
  proof (cases r)
    case ReadError
    have "\<not> Contains response ''OK''" "\<not> Contains response ''ERROR''"
      using Cons.prems Contains_prefix [of response _ "received (r # rs)"] by blast+
    with Cons ReadError show ?thesis by simp
  next
    case (ReadBytes buf)
    have no: "\<not> Contains (response @ buf) ''OK''" "\<not> Contains (response @ buf) ''ERROR''"
      using Cons.prems ReadBytes Contains_prefix [of "response @ buf" _ "received rs"] by auto
    have t1: "\<not> Contains (response @ buf) (CRLF @ ''OK'' @ CRLF)"
      using no(1) Contains_inner [of "response @ buf" CRLF "''OK''" CRLF] by blast
    have t2: "\<not> Contains (response @ buf) (CRLF @ ''ERROR'' @ CRLF)"
      using no(2) Contains_inner [of "response @ buf" CRLF "''ERROR''" CRLF] by blast
    have t3: "\<not> Contains (response @ buf) (CRLF @ ''+CME ERROR'')"
      using no(2) Contains_inner [of "response @ buf" "CRLF @ ''+CME ''" "''ERROR''" "[]"]
      by auto
    have t4: "\<not> Contains (response @ buf) (CRLF @ ''+CMS ERROR'')"
      using no(2) Contains_inner [of "response @ buf" "CRLF @ ''+CMS ''" "''ERROR''" "[]"]
      by auto
    from Cons.IH [of "response @ buf"] Cons.prems ReadBytes
    have IH: "readResponse_loop rs (response @ buf) =
      (if (response @ buf) @ received rs = []
       then ([], Some (ErrorString ''timeout waiting for response''))
       else ((response @ buf) @ received rs, None))" by simp
    show ?thesis
    proof (cases "buf = []")
      case True
      with IH ReadBytes show ?thesis by simp
    next
      case False
      with IH ReadBytes t1 t2 t3 t4 show ?thesis by simp
    qed
  qed
qed

lemma readResponse_bufio_loop_timeout:
  assumes "\<not> Contains (response @ accumulated rs) ''OK''"
    and "\<not> Contains (response @ accumulated rs) ''ERROR''"
  shows "readResponse_bufio_loop rs response =
    (if response @ accumulated rs = []
     then ([], Some (ErrorString ''timeout waiting for response''))
     else (response @ accumulated rs, None))"
  using assms
proof (induction rs arbitrary: response)
  case Nil
  then show ?case by simp
next
  case (Cons r rs)
  show ?case
  proof (cases r)
    case LineError
    have "\<not> Contains response ''OK''" "\<not> Contains response ''ERROR''"
      using Cons.prems Contains_prefix [of response _ "accumulated (r # rs)"] by blast+
    with Cons LineError show ?thesis by simp
  next
    case (Line l)
    show ?thesis
    proof (cases "TrimSpace l = []")
      case True
      with Cons Line show ?thesis by simp
    next
      case False
      let ?acc = "response @ TrimSpace l @ ''\<newline>''"
      have acc: "response @ accumulated (r # rs) = ?acc @ accumulated rs"
        using Line False by simp
      have no: "\<not> Contains (TrimSpace l) ''OK''" "\<not> Contains (TrimSpace l) ''ERROR''"
        using Cons.prems Line False
          Contains_append [of "TrimSpace l" _ response "''\<newline>'' @ accumulated rs"]
        by auto
      have p1: "\<not> HasPrefix (TrimSpace l) ''OK''"
        using no(1) HasPrefix_Contains [of "TrimSpace l" "''OK''" "[]"] by auto
      have p2: "\<not> HasPrefix (TrimSpace l) ''ERROR''"
        using no(2) HasPrefix_Contains [of "TrimSpace l" "''ERROR''" "[]"] by auto
      have p3: "\<not> HasPrefix (TrimSpace l) ''+CME ERROR''"
      proof
        assume "HasPrefix (TrimSpace l) ''+CME ERROR''"
        then obtain b where "TrimSpace l = ''+CME ERROR'' @ b" using HasPrefix_iff by blast
        then have "TrimSpace l = ''+CME '' @ ''ERROR'' @ b" by simp
        then have "Contains (TrimSpace l) ''ERROR''" using Contains_iff by blast
        with no(2) show False by simp
      qed
      have p4: "\<not> HasPrefix (TrimSpace l) ''+CMS ERROR''"
      proof
        assume "HasPrefix (TrimSpace l) ''+CMS ERROR''"
        then obtain b where "TrimSpace l = ''+CMS ERROR'' @ b" using HasPrefix_iff by blast
        then have "TrimSpace l = ''+CMS '' @ ''ERROR'' @ b" by simp
        then have "Contains (TrimSpace l) ''ERROR''" using Contains_iff by blast
        with no(2) show False by simp
      qed
      from Cons.IH [of ?acc] Cons.prems acc
      have IH: "readResponse_bufio_loop rs ?acc =
        (if ?acc @ accumulated rs = []
         then ([], Some (ErrorString ''timeout waiting for response''))
         else (?acc @ accumulated rs, None))" by simp
      show ?thesis using Line False p1 p2 p3 p4 IH by simp
    qed
  qed
qed

text \<open>
  Claim C3.  When the timeout elapses and nothing has been accumulated,
  \<^verbatim>\<open>readResponse\<close> fails with the timeout error; when something has been accumulated
  and no terminator has arrived (the response holds neither \<^verbatim>\<open>OK\<close> nor \<^verbatim>\<open>ERROR\<close>), it
  returns what was accumulated, without an error.  This holds of both versions of
  \<^verbatim>\<open>readResponse\<close>.
\<close>

theorem readResponse_timeout:
  "(\<not> Contains (received rs) ''OK'' \<and> \<not> Contains (received rs) ''ERROR'' \<longrightarrow>
      readResponse rs =
        (if received rs = [] then ([], Some (ErrorString ''timeout waiting for response''))
         else (received rs, None)))
   \<and> (\<not> Contains (accumulated ls) ''OK'' \<and> \<not> Contains (accumulated ls) ''ERROR'' \<longrightarrow>
      readResponse_bufio ls =
        (if accumulated ls = [] then ([], Some (ErrorString ''timeout waiting for response''))
         else (accumulated ls, None)))"
  using readResponse_loop_timeout [of "[]" rs] readResponse_bufio_loop_timeout [of "[]" ls]
  by (simp add: readResponse_def readResponse_bufio_def)

theorem readResponse_timeout_witness:
  "\<not> Contains (received [ReadError, ReadBytes ''+CSQ: 15,99'', ReadError]) ''OK''
   \<and> \<not> Contains (received [ReadError, ReadBytes ''+CSQ: 15,99'', ReadError]) ''ERROR''
   \<and> readResponse [ReadError, ReadBytes ''+CSQ: 15,99'', ReadError] = (''+CSQ: 15,99'', None)
   \<and> \<not> Contains (accumulated [LineError, Line (''+CSQ: 15,99'' @ CRLF)]) ''OK''
   \<and> \<not> Contains (accumulated [LineError, Line (''+CSQ: 15,99'' @ CRLF)]) ''ERROR''
   \<and> readResponse_bufio [LineError, Line (''+CSQ: 15,99'' @ CRLF)]
       = (''+CSQ: 15,99\<newline>'', None)
   \<and> readResponse [ReadError, ReadBytes [], ReadError]
       = ([], Some (ErrorString ''timeout waiting for response''))
   \<and> readResponse_bufio [LineError, Line CRLF]
       = ([], Some (ErrorString ''timeout waiting for response''))"
proof -
  have t1: "TrimSpace (''+CSQ: 15,99'' @ CRLF) = ''+CSQ: 15,99''"
    by (simp add: TrimSpace_def TrimLeftSpace.simps IsSpace_def TrimRightSpace.simps
        DecodeLastRuneInString_def CRLF_def)
  have t2: "TrimSpace CRLF = []"
    by (simp add: TrimSpace_def TrimLeftSpace.simps IsSpace_def TrimRightSpace.simps CRLF_def)
  show ?thesis
    using readResponse_timeout [of "[ReadError, ReadBytes ''+CSQ: 15,99'', ReadError]"
        "[LineError, Line (''+CSQ: 15,99'' @ CRLF)]"]
      readResponse_timeout [of "[ReadError, ReadBytes [], ReadError]" "[LineError, Line CRLF]"]
    by (simp add: t1 [unfolded CRLF_def, simplified] t2 [unfolded CRLF_def] HasPrefix_def
        CRLF_def)
qed

lemma readResponse_loop_terminal_error:
  assumes "buf \<noteq> []"
    and "Contains (response @ buf) (CRLF @ ''ERROR'' @ CRLF)
         \<or> Contains (response @ buf) (CRLF @ ''+CME ERROR'')
         \<or> Contains (response @ buf) (CRLF @ ''+CMS ERROR'')"
  shows "readResponse_loop (ReadBytes buf # rs) response = (response @ buf, None)"
  using assms by auto

lemma readResponse_bufio_loop_terminal_error:
  assumes "TrimSpace l \<noteq> []"
    and "HasPrefix (TrimSpace l) ''ERROR'' \<or> HasPrefix (TrimSpace l) ''+CME ERROR''
         \<or> HasPrefix (TrimSpace l) ''+CMS ERROR''"
  shows "readResponse_bufio_loop (Line l # rs) response
         = (response @ TrimSpace l @ ''\<newline>'', None)"
  using assms by auto

text \<open>
  Claim C1.  A response that holds a terminal-error line is said to make
  \<^verbatim>\<open>SendCommand\<close> and \<^verbatim>\<open>readResponse\<close> return an error that carries the line.  On the
  response of the specification, the line \<^verbatim>\<open>+CMS ERROR: 305\<close> between two line ends,
  both versions of \<^verbatim>\<open>readResponse\<close> and \<^verbatim>\<open>SendCommand\<close> return the text with the
  error \<^verbatim>\<open>nil\<close>.
\<close>

theorem readResponse_CMS_ERROR_is_success:
  "readResponse [ReadBytes (CRLF @ ''+CMS ERROR: 305'' @ CRLF)]
     = (CRLF @ ''+CMS ERROR: 305'' @ CRLF, None)
   \<and> readResponse_bufio [Line CRLF, Line (''+CMS ERROR: 305'' @ CRLF)]
     = (''+CMS ERROR: 305\<newline>'', None)
   \<and> fst (SendCommand readResponse ''AT+CMGS=\"+79991234567\"'' 1000
         \<lparr>trace = [], write_fails = (\<lambda>n. False),
          replies = (\<lambda>n. [ReadBytes (CRLF @ ''+CMS ERROR: 305'' @ CRLF)]),
          writes_done = 0, reads_done = 0\<rparr>)
     = (CRLF @ ''+CMS ERROR: 305'' @ CRLF, None)"
proof -
  have t1: "TrimSpace (''+CMS ERROR: 305'' @ CRLF) = ''+CMS ERROR: 305''"
    by (simp add: TrimSpace_def TrimLeftSpace.simps IsSpace_def TrimRightSpace.simps
        DecodeLastRuneInString_def CRLF_def)
  have t2: "TrimSpace CRLF = []"
    by (simp add: TrimSpace_def TrimLeftSpace.simps IsSpace_def TrimRightSpace.simps CRLF_def)
  have r: "readResponse [ReadBytes (CRLF @ ''+CMS ERROR: 305'' @ CRLF)]
     = (CRLF @ ''+CMS ERROR: 305'' @ CRLF, None)"
    by (simp add: readResponse_def HasPrefix_def CRLF_def)
  have b: "readResponse_bufio [Line CRLF, Line (''+CMS ERROR: 305'' @ CRLF)]
     = (''+CMS ERROR: 305\<newline>'', None)"
    by (simp add: readResponse_bufio_def t1 [unfolded CRLF_def, simplified]
        t2 [unfolded CRLF_def] HasPrefix_def CRLF_def)
  show ?thesis
    using r b
    by (simp add: SendCommand_def sendCommand_def port_Write_def port_readResponse_def log_def
        Let_def)
qed

section \<open>Properties of \<^verbatim>\<open>SendSMS\<close>\<close>

lemma writes_append: "writes (xs @ ys) = writes xs @ writes ys"
  by (induction xs rule: writes.induct) simp_all

lemma needsUCS2_loop_iff: "needsUCS2_loop rs \<longleftrightarrow> (\<exists>r \<in> set rs. 127 < r)"
  by (induction rs) auto

lemma writes_sendCommand:
  "writes (trace (snd (sendCommand rr cmd t p))) = writes (trace p) @ [cmd @ CRLF]"
  by (simp add: sendCommand_def port_Write_def port_readResponse_def log_def Let_def writes_append)

lemma writes_SendCommand:
  "writes (trace (snd (SendCommand rr cmd t p))) = writes (trace p) @ [cmd @ CRLF]"
  by (simp add: SendCommand_def log_def Let_def writes_sendCommand writes_append)

lemma writes_SendSMS_locked_first:
  "\<exists>rest. writes (trace (snd (SendSMS_locked rr cmd body p)))
     = writes (trace p) @ (cmd @ [CHR 0x0D]) # rest"
  by (simp add: SendSMS_locked_def port_Write_def port_readResponse_def log_def Let_def
      writes_append writes_sendCommand split: option.splits)

lemma writes_SendSMS_locked_ok:
  "fst (SendSMS_locked rr cmd body p) = None \<Longrightarrow>
   writes (trace (snd (SendSMS_locked rr cmd body p)))
     = writes (trace p) @ [cmd @ [CHR 0x0D], body @ [CHR 0x1A], ''AT+CSCS=\"GSM\"'' @ CRLF]"
  by (simp add: SendSMS_locked_def port_Write_def port_readResponse_def log_def Let_def
      writes_append writes_sendCommand split: option.splits if_splits)

lemma writes_SendSMS_first:
  "\<exists>rest. writes (trace (snd (SendSMS rr number tx p)))
     = writes (trace p) @ (''AT+CMGF=1'' @ CRLF) # rest"
proof -
  let ?r1 = "SendCommand rr ''AT+CMGF=1'' 1000 p"
  have w1: "writes (trace (snd ?r1)) = writes (trace p) @ [''AT+CMGF=1'' @ CRLF]"
    by (rule writes_SendCommand)
  show ?thesis
  proof (cases "snd (fst ?r1)")
    case (Some err)
    then show ?thesis using w1 by (simp add: SendSMS_def Let_def)
  next
    case None
    show ?thesis
    proof (cases "needsUCS2 tx")
      case True
      let ?r2 = "SendCommand rr ''AT+CSCS=\"UCS2\"'' 1000 (snd ?r1)"
      have w2: "writes (trace (snd ?r2))
          = writes (trace p) @ [''AT+CMGF=1'' @ CRLF, ''AT+CSCS=\"UCS2\"'' @ CRLF]"
        using w1 by (simp add: writes_SendCommand)
      obtain rest where "writes (trace (snd (SendSMS_locked rr
            (''AT+CMGS=\"'' @ EncodeUCS2 number @ ''\"'') (EncodeUCS2 tx) (log Lock (snd ?r2)))))
          = writes (trace (log Lock (snd ?r2)))
            @ ((''AT+CMGS=\"'' @ EncodeUCS2 number @ ''\"'') @ [CHR 0x0D]) # rest"
        using writes_SendSMS_locked_first by blast
      then show ?thesis using None True w2
        by (cases "snd (fst ?r2)") (simp_all add: SendSMS_def Let_def log_def writes_append)
    next
      case False
      let ?r2 = "SendCommand rr ''AT+CSCS=\"GSM\"'' 1000 (snd ?r1)"
      have w2: "writes (trace (snd ?r2))
          = writes (trace p) @ [''AT+CMGF=1'' @ CRLF, ''AT+CSCS=\"GSM\"'' @ CRLF]"
        using w1 by (simp add: writes_SendCommand)
      obtain rest where "writes (trace (snd (SendSMS_locked rr
            (''AT+CMGS=\"'' @ number @ ''\"'') tx (log Lock (snd ?r2)))))
          = writes (trace (log Lock (snd ?r2)))
            @ ((''AT+CMGS=\"'' @ number @ ''\"'') @ [CHR 0x0D]) # rest"
        using writes_SendSMS_locked_first by blast
      then show ?thesis using None False w2
        by (cases "snd (fst ?r2)") (simp_all add: SendSMS_def Let_def log_def writes_append)
    qed
  qed
qed

lemma writes_SendSMS_second:
  assumes "snd (fst (SendCommand rr ''AT+CMGF=1'' 1000 p)) = None"
  shows "\<exists>rest. writes (trace (snd (SendSMS rr number tx p)))
     = writes (trace p) @ [''AT+CMGF=1'' @ CRLF,
         (if needsUCS2 tx then ''AT+CSCS=\"UCS2\"'' else ''AT+CSCS=\"GSM\"'') @ CRLF] @ rest"
proof -
  let ?r1 = "SendCommand rr ''AT+CMGF=1'' 1000 p"
  have w1: "writes (trace (snd ?r1)) = writes (trace p) @ [''AT+CMGF=1'' @ CRLF]"
    by (rule writes_SendCommand)
  show ?thesis
  proof (cases "needsUCS2 tx")
    case True
    let ?r2 = "SendCommand rr ''AT+CSCS=\"UCS2\"'' 1000 (snd ?r1)"
    have w2: "writes (trace (snd ?r2))
        = writes (trace p) @ [''AT+CMGF=1'' @ CRLF, ''AT+CSCS=\"UCS2\"'' @ CRLF]"
      using w1 by (simp add: writes_SendCommand)
    obtain rest where "writes (trace (snd (SendSMS_locked rr
          (''AT+CMGS=\"'' @ EncodeUCS2 number @ ''\"'') (EncodeUCS2 tx) (log Lock (snd ?r2)))))
        = writes (trace (log Lock (snd ?r2)))
          @ ((''AT+CMGS=\"'' @ EncodeUCS2 number @ ''\"'') @ [CHR 0x0D]) # rest"
      using writes_SendSMS_locked_first by blast
    then show ?thesis using assms True w2
      by (cases "snd (fst ?r2)") (simp_all add: SendSMS_def Let_def log_def writes_append)
  next
    case False
    let ?r2 = "SendCommand rr ''AT+CSCS=\"GSM\"'' 1000 (snd ?r1)"
    have w2: "writes (trace (snd ?r2))
        = writes (trace p) @ [''AT+CMGF=1'' @ CRLF, ''AT+CSCS=\"GSM\"'' @ CRLF]"
      using w1 by (simp add: writes_SendCommand)
    obtain rest where "writes (trace (snd (SendSMS_locked rr
          (''AT+CMGS=\"'' @ number @ ''\"'') tx (log Lock (snd ?r2)))))
        = writes (trace (log Lock (snd ?r2)))
          @ ((''AT+CMGS=\"'' @ number @ ''\"'') @ [CHR 0x0D]) # rest"
      using writes_SendSMS_locked_first by blast
    then show ?thesis using assms False w2
      by (cases "snd (fst ?r2)") (simp_all add: SendSMS_def Let_def log_def writes_append)
  qed
qed

lemma writes_SendSMS_ok:
  assumes ok: "fst (SendSMS rr number tx p) = None"
  shows "writes (trace (snd (SendSMS rr number tx p))) = writes (trace p) @
      (if needsUCS2 tx
       then [''AT+CMGF=1'' @ CRLF, ''AT+CSCS=\"UCS2\"'' @ CRLF,
             ''AT+CMGS=\"'' @ EncodeUCS2 number @ ''\"'' @ [CHR 0x0D],
             EncodeUCS2 tx @ [CHR 0x1A], ''AT+CSCS=\"GSM\"'' @ CRLF]
       else [''AT+CMGF=1'' @ CRLF, ''AT+CSCS=\"GSM\"'' @ CRLF,
             ''AT+CMGS=\"'' @ number @ ''\"'' @ [CHR 0x0D],
             tx @ [CHR 0x1A], ''AT+CSCS=\"GSM\"'' @ CRLF])"
proof -
  let ?r1 = "SendCommand rr ''AT+CMGF=1'' 1000 p"
  have w1: "writes (trace (snd ?r1)) = writes (trace p) @ [''AT+CMGF=1'' @ CRLF]"
    by (rule writes_SendCommand)
  from ok have n1: "snd (fst ?r1) = None"
    by (cases "snd (fst ?r1)") (simp_all add: SendSMS_def Let_def)
  show ?thesis
  proof (cases "needsUCS2 tx")
    case True
    let ?r2 = "SendCommand rr ''AT+CSCS=\"UCS2\"'' 1000 (snd ?r1)"
    let ?r3 = "SendSMS_locked rr (''AT+CMGS=\"'' @ EncodeUCS2 number @ ''\"'') (EncodeUCS2 tx)
                 (log Lock (snd ?r2))"
    have w2: "writes (trace (snd ?r2))
        = writes (trace p) @ [''AT+CMGF=1'' @ CRLF, ''AT+CSCS=\"UCS2\"'' @ CRLF]"
      using w1 by (simp add: writes_SendCommand)
    from ok n1 True have n2: "snd (fst ?r2) = None"
      by (cases "snd (fst ?r2)") (simp_all add: SendSMS_def Let_def)
    from ok n1 n2 True have n3: "fst ?r3 = None" by (simp add: SendSMS_def Let_def)
    have eq: "SendSMS rr number tx p = (fst ?r3, log Unlock (snd ?r3))"
      using n1 n2 True by (simp add: SendSMS_def Let_def)
    show ?thesis
      unfolding eq using writes_SendSMS_locked_ok [OF n3] w2 True
      by (simp add: log_def writes_append)
  next
    case False
    let ?r2 = "SendCommand rr ''AT+CSCS=\"GSM\"'' 1000 (snd ?r1)"
    let ?r3 = "SendSMS_locked rr (''AT+CMGS=\"'' @ number @ ''\"'') tx (log Lock (snd ?r2))"
    have w2: "writes (trace (snd ?r2))
        = writes (trace p) @ [''AT+CMGF=1'' @ CRLF, ''AT+CSCS=\"GSM\"'' @ CRLF]"
      using w1 by (simp add: writes_SendCommand)
    from ok n1 False have n2: "snd (fst ?r2) = None"
      by (cases "snd (fst ?r2)") (simp_all add: SendSMS_def Let_def)
    from ok n1 n2 False have n3: "fst ?r3 = None" by (simp add: SendSMS_def Let_def)
    have eq: "SendSMS rr number tx p = (fst ?r3, log Unlock (snd ?r3))"
      using n1 n2 False by (simp add: SendSMS_def Let_def)
    show ?thesis
      unfolding eq using writes_SendSMS_locked_ok [OF n3] w2 False
      by (simp add: log_def writes_append)
  qed
qed

text \<open>
  Claim C5.  \<^verbatim>\<open>SendSMS\<close> takes the UCS-2 branch exactly when some rune of the text is
  above \<^verbatim>\<open>0x7F\<close>.  The first command written is always \<^verbatim>\<open>AT+CMGF=1\<close>; once it has
  been answered, the second is \<^verbatim>\<open>AT+CSCS="UCS2"\<close> in the UCS-2 case and
  \<^verbatim>\<open>AT+CSCS="GSM"\<close> otherwise; and a send that succeeds has written, in this order,
  these two commands, \<^verbatim>\<open>AT+CMGS\<close> with the number, the body and the final
  \<^verbatim>\<open>AT+CSCS="GSM"\<close>, the number and the body being passed through \<^verbatim>\<open>EncodeUCS2\<close> in
  the UCS-2 case.
\<close>

theorem SendSMS_commands:
  "(needsUCS2 tx \<longleftrightarrow> (\<exists>r \<in> set (runes tx). 0x7F < r))
   \<and> (\<exists>rest. writes (trace (snd (SendSMS rr number tx p)))
          = writes (trace p) @ (''AT+CMGF=1'' @ CRLF) # rest)
   \<and> (snd (fst (SendCommand rr ''AT+CMGF=1'' 1000 p)) = None \<longrightarrow>
        (\<exists>rest. writes (trace (snd (SendSMS rr number tx p)))
           = writes (trace p) @ [''AT+CMGF=1'' @ CRLF,
               (if needsUCS2 tx then ''AT+CSCS=\"UCS2\"'' else ''AT+CSCS=\"GSM\"'') @ CRLF]
             @ rest))
   \<and> (fst (SendSMS rr number tx p) = None \<longrightarrow>
        writes (trace (snd (SendSMS rr number tx p))) = writes (trace p) @
          (if needsUCS2 tx
           then [''AT+CMGF=1'' @ CRLF, ''AT+CSCS=\"UCS2\"'' @ CRLF,
                 ''AT+CMGS=\"'' @ EncodeUCS2 number @ ''\"'' @ [CHR 0x0D],
                 EncodeUCS2 tx @ [CHR 0x1A], ''AT+CSCS=\"GSM\"'' @ CRLF]
           else [''AT+CMGF=1'' @ CRLF, ''AT+CSCS=\"GSM\"'' @ CRLF,
                 ''AT+CMGS=\"'' @ number @ ''\"'' @ [CHR 0x0D],
                 tx @ [CHR 0x1A], ''AT+CSCS=\"GSM\"'' @ CRLF]))"
proof (intro conjI impI)
  show "needsUCS2 tx \<longleftrightarrow> (\<exists>r \<in> set (runes tx). 0x7F < r)"
    by (simp add: needsUCS2_def needsUCS2_loop_iff)
next
  show "\<exists>rest. writes (trace (snd (SendSMS rr number tx p)))
          = writes (trace p) @ (''AT+CMGF=1'' @ CRLF) # rest"
    by (rule writes_SendSMS_first)
next
  assume "snd (fst (SendCommand rr ''AT+CMGF=1'' 1000 p)) = None"
  then show "\<exists>rest. writes (trace (snd (SendSMS rr number tx p)))
           = writes (trace p) @ [''AT+CMGF=1'' @ CRLF,
               (if needsUCS2 tx then ''AT+CSCS=\"UCS2\"'' else ''AT+CSCS=\"GSM\"'') @ CRLF]
             @ rest"
    by (rule writes_SendSMS_second)
next
  assume "fst (SendSMS rr number tx p) = None"
  then show "writes (trace (snd (SendSMS rr number tx p))) = writes (trace p) @
          (if needsUCS2 tx
           then [''AT+CMGF=1'' @ CRLF, ''AT+CSCS=\"UCS2\"'' @ CRLF,
                 ''AT+CMGS=\"'' @ EncodeUCS2 number @ ''\"'' @ [CHR 0x0D],
                 EncodeUCS2 tx @ [CHR 0x1A], ''AT+CSCS=\"GSM\"'' @ CRLF]
           else [''AT+CMGF=1'' @ CRLF, ''AT+CSCS=\"GSM\"'' @ CRLF,
                 ''AT+CMGS=\"'' @ number @ ''\"'' @ [CHR 0x0D],
                 tx @ [CHR 0x1A], ''AT+CSCS=\"GSM\"'' @ CRLF])"
    by (rule writes_SendSMS_ok)
qed

lemma SendCommand_eval:
  assumes "\<not> fails wd"
  shows "SendCommand rr cmd t
      \<lparr>trace = tr, write_fails = fails, replies = rp, writes_done = wd, reads_done = rd\<rparr> =
    (rr (rp rd),
     \<lparr>trace = tr @ [Lock, Flush, Write (cmd @ CRLF), ReadResponse t, Unlock],
      write_fails = fails, replies = rp, writes_done = Suc wd, reads_done = Suc rd\<rparr>)"
  using assms
  by (simp add: SendCommand_def sendCommand_def port_Write_def port_readResponse_def log_def
      Let_def)

lemma SendSMS_locked_eval:
  assumes "\<not> fails wd" "\<not> fails (Suc wd)" "\<not> fails (Suc (Suc wd))"
    and "snd (rr (rp rd)) = None"
  shows "SendSMS_locked rr cmd body
      \<lparr>trace = tr, write_fails = fails, replies = rp, writes_done = wd, reads_done = rd\<rparr> =
    (if \<not> Contains (fst (rr (rp rd))) ''OK''
     then (Some (ErrorString (''SMS sending failed: '' @ fst (rr (rp rd)))),
           \<lparr>trace = tr @ [Write (cmd @ [CHR 0x0D]), Sleep 100, Write (body @ [CHR 0x1A]),
                      ReadResponse 30000],
            write_fails = fails, replies = rp, writes_done = Suc (Suc wd),
            reads_done = Suc rd\<rparr>)
     else (None,
           \<lparr>trace = tr @ [Write (cmd @ [CHR 0x0D]), Sleep 100, Write (body @ [CHR 0x1A]),
                      ReadResponse 30000, Flush, Write (''AT+CSCS=\"GSM\"'' @ CRLF),
                      ReadResponse 1000],
            write_fails = fails, replies = rp, writes_done = Suc (Suc (Suc wd)),
            reads_done = Suc (Suc rd)\<rparr>))"
  using assms
  by (simp add: SendSMS_locked_def sendCommand_def port_Write_def port_readResponse_def log_def
      Let_def)

lemma readResponse_OK:
  "readResponse [ReadBytes [CHR 0x0D, CHR 0x0A, CHR ''O'', CHR ''K'', CHR 0x0D, CHR 0x0A]]
   = ([CHR 0x0D, CHR 0x0A, CHR ''O'', CHR ''K'', CHR 0x0D, CHR 0x0A], None)"
  by (simp add: readResponse_def HasPrefix_def CRLF_def)

lemma readResponse_ERROR:
  "readResponse [ReadBytes [CHR 0x0D, CHR 0x0A, CHR ''E'', CHR ''R'', CHR ''R'', CHR ''O'',
       CHR ''R'', CHR 0x0D, CHR 0x0A]]
   = ([CHR 0x0D, CHR 0x0A, CHR ''E'', CHR ''R'', CHR ''R'', CHR ''O'', CHR ''R'', CHR 0x0D,
       CHR 0x0A], None)"
  by (simp add: readResponse_def HasPrefix_def CRLF_def)

lemma needsUCS2_Pi: "needsUCS2 [CHR 0xD0, CHR 0x9F]"
  by (simp add: needsUCS2_def runes.simps Let_def acceptRange_def)

theorem SendSMS_commands_witness:
  "(\<exists>r \<in> set (runes [CHR 0xD0, CHR 0x9F]). 0x7F < r)
   \<and> snd (fst (SendCommand readResponse ''AT+CMGF=1'' 1000
        \<lparr>trace = [], write_fails = (\<lambda>n. False),
         replies = (\<lambda>n. [ReadBytes [CHR 0x0D, CHR 0x0A, CHR ''O'', CHR ''K'', CHR 0x0D,
                                     CHR 0x0A]]),
         writes_done = 0, reads_done = 0\<rparr>)) = None
   \<and> fst (SendSMS readResponse ''+7'' [CHR 0xD0, CHR 0x9F]
        \<lparr>trace = [], write_fails = (\<lambda>n. False),
         replies = (\<lambda>n. [ReadBytes [CHR 0x0D, CHR 0x0A, CHR ''O'', CHR ''K'', CHR 0x0D,
                                     CHR 0x0A]]),
         writes_done = 0, reads_done = 0\<rparr>) = None
   \<and> writes (trace (snd (SendSMS readResponse ''+7'' [CHR 0xD0, CHR 0x9F]
        \<lparr>trace = [], write_fails = (\<lambda>n. False),
         replies = (\<lambda>n. [ReadBytes [CHR 0x0D, CHR 0x0A, CHR ''O'', CHR ''K'', CHR 0x0D,
                                     CHR 0x0A]]),
         writes_done = 0, reads_done = 0\<rparr>)))
     = [''AT+CMGF=1'' @ CRLF, ''AT+CSCS=\"UCS2\"'' @ CRLF,
        ''AT+CMGS=\"'' @ EncodeUCS2 ''+7'' @ ''\"'' @ [CHR 0x0D],
        EncodeUCS2 [CHR 0xD0, CHR 0x9F] @ [CHR 0x1A], ''AT+CSCS=\"GSM\"'' @ CRLF]"
proof -
  let ?p = "\<lparr>trace = [], write_fails = (\<lambda>n. False),
             replies = (\<lambda>n. [ReadBytes [CHR 0x0D, CHR 0x0A, CHR ''O'', CHR ''K'', CHR 0x0D,
                                         CHR 0x0A]]),
             writes_done = 0, reads_done = 0\<rparr>"
  have c: "snd (fst (SendCommand readResponse ''AT+CMGF=1'' 1000 ?p)) = None"
    by (simp add: SendCommand_eval readResponse_OK)
  have s: "fst (SendSMS readResponse ''+7'' [CHR 0xD0, CHR 0x9F] ?p) = None"
    by (simp add: SendSMS_def Let_def SendCommand_eval SendSMS_locked_eval log_def
        readResponse_OK needsUCS2_Pi HasPrefix_def)
  show ?thesis
    using SendSMS_commands [of "[CHR 0xD0, CHR 0x9F]" readResponse "''+7''" ?p]
      needsUCS2_Pi c s
    by simp
qed

text \<open>
  What \<^verbatim>\<open>SendSMS\<close> does with the mutex held, whatever the modem answers: when the
  write of the command succeeds, the next actions are the pause of 100 ms and the write
  of the body with the byte \<^verbatim>\<open>0x1A\<close>; the port is not read in between, and the mutex
  is released by none of the actions of the locked part.
\<close>

lemma SendSMS_locked_trace:
  assumes "\<not> write_fails p (writes_done p)"
  shows "\<exists>rest. trace (snd (SendSMS_locked rr cmd body p))
      = trace p @ [Write (cmd @ [CHR 0x0D]), Sleep 100, Write (body @ [CHR 0x1A])] @ rest
      \<and> Unlock \<notin> set rest \<and> Lock \<notin> set rest"
  using assms
  by (simp add: SendSMS_locked_def sendCommand_def port_Write_def port_readResponse_def log_def
      Let_def split: option.splits)

text \<open>
  Claim C2.  Phase A is said to wait for the prompt token of the modem.  Here the modem
  answers the two set-up commands, then rejects \<^verbatim>\<open>AT+CMGS\<close> with \<^verbatim>\<open>ERROR\<close> and never
  sends a prompt: \<^verbatim>\<open>SendSMS\<close> writes the command ended by a carriage return alone,
  pauses 100 ms and writes the body with the byte \<^verbatim>\<open>0x1A\<close> all the same; the port is
  first read after the body has been written.  The mutex is held from before the
  command until after the response.
\<close>

theorem SendSMS_writes_body_without_prompt:
  "SendSMS readResponse ''+79991234567'' ''Hello''
      \<lparr>trace = [], write_fails = (\<lambda>n. False),
       replies = (\<lambda>n. if n = 2
                       then [ReadBytes [CHR 0x0D, CHR 0x0A, CHR ''E'', CHR ''R'', CHR ''R'',
                                        CHR ''O'', CHR ''R'', CHR 0x0D, CHR 0x0A]]
                       else [ReadBytes [CHR 0x0D, CHR 0x0A, CHR ''O'', CHR ''K'', CHR 0x0D,
                                        CHR 0x0A]]),
       writes_done = 0, reads_done = 0\<rparr>
   = (Some (ErrorString (''SMS sending failed: '' @ CRLF @ ''ERROR'' @ CRLF)),
      \<lparr>trace = [Lock, Flush, Write (''AT+CMGF=1'' @ CRLF), ReadResponse 1000, Unlock,
                Lock, Flush, Write (''AT+CSCS=\"GSM\"'' @ CRLF), ReadResponse 1000, Unlock,
                Lock, Write (''AT+CMGS=\"+79991234567\"'' @ [CHR 0x0D]), Sleep 100,
                Write (''Hello'' @ [CHR 0x1A]), ReadResponse 30000, Unlock],
       write_fails = (\<lambda>n. False),
       replies = (\<lambda>n. if n = 2
                       then [ReadBytes [CHR 0x0D, CHR 0x0A, CHR ''E'', CHR ''R'', CHR ''R'',
                                        CHR ''O'', CHR ''R'', CHR 0x0D, CHR 0x0A]]
                       else [ReadBytes [CHR 0x0D, CHR 0x0A, CHR ''O'', CHR ''K'', CHR 0x0D,
                                        CHR 0x0A]]),
       writes_done = 4, reads_done = 3\<rparr>)"
proof -
  have n: "\<not> needsUCS2 ''Hello''"
    by (simp add: needsUCS2_def runes.simps)
  show ?thesis
    by (simp add: SendSMS_def Let_def SendCommand_eval SendSMS_locked_eval log_def
        readResponse_OK readResponse_ERROR n HasPrefix_def CRLF_def)
qed

section \<open>Properties of \<^verbatim>\<open>parseGSMTime\<close>\<close>

lemma Split_from_no_sep: "sep \<notin> set s \<Longrightarrow> Split_from cur s sep = [cur @ s]"
  by (induction s arbitrary: cur) auto

lemma Split_from_append:
  "sep \<notin> set a \<Longrightarrow> Split_from cur (a @ sep # b) sep = (cur @ a) # Split_from [] b sep"
  by (induction a arbitrary: cur) auto

lemma Split_no_sep: "sep \<notin> set s \<Longrightarrow> Split s sep = [s]"
  by (simp add: Split_def Split_from_no_sep)

lemma Split_append:
  "sep \<notin> set a \<Longrightarrow> Split (a @ sep # b) sep = a # Split b sep"
  by (simp add: Split_def Split_from_append)

lemma two_digits_cases:
  assumes "two_digits s"
  obtains a b where "s = [a, b]" "isDigit a" "isDigit b"
proof -
  from assms have l: "length s = 2" and d: "isDigit (s ! 0)" "isDigit (s ! 1)"
    by (simp_all add: two_digits_def)
  from l obtain a b where "s = [a, b]"
    by (cases s; cases "tl s") auto
  with d that show ?thesis by simp
qed

lemma two_digits_no_sep:
  assumes "two_digits s" "\<not> isDigit sep"
  shows "sep \<notin> set s"
proof -
  from assms(1) obtain a b where "s = [a, b]" "isDigit a" "isDigit b"
    by (rule two_digits_cases)
  with assms(2) show ?thesis by auto
qed

lemma not_digit_seps:
  "\<not> isDigit CHR '',''" "\<not> isDigit CHR ''/''" "\<not> isDigit CHR ''+''" "\<not> isDigit CHR '':''"
  by (simp_all add: isDigit_def)

lemma digit_value: "isDigit c \<Longrightarrow> (of_char c :: nat) - 48 \<le> 9"
  unfolding isDigit_def by linarith

lemma Atoi_two_digits:
  assumes "two_digits s"
  shows "fst (Atoi s) = dec2 s"
proof -
  from assms obtain a b where s: "s = [a, b]" and d: "isDigit a" "isDigit b"
    by (rule two_digits_cases)
  have sg: "a \<noteq> CHR ''-''" "a \<noteq> CHR ''+''" using d(1) by (auto simp: isDigit_def)
  have v: "(of_char a :: nat) - 48 \<le> 9" "(of_char b :: nat) - 48 \<le> 9"
    using d by (simp_all add: digit_value)
  then have le: "((of_char a :: nat) - 48) * 10 + (of_char b - 48) \<le> 99" by simp
  then have p: "ParseUint_loop [a, b] 0 = ((of_char a - 48) * 10 + (of_char b - 48), None)"
    using d v by simp
  show ?thesis unfolding s using sg le
    by (simp add: Atoi_def dec2_def Let_def p del: ParseUint_loop.simps)
qed

lemma Atoi_year:
  assumes "two_digits s"
  shows "fst (Atoi (''20'' @ s)) = 2000 + dec2 s"
proof -
  from assms obtain a b where s: "s = [a, b]" and d: "isDigit a" "isDigit b"
    by (rule two_digits_cases)
  have v: "(of_char a :: nat) - 48 \<le> 9" "(of_char b :: nat) - 48 \<le> 9"
    using d by (simp_all add: digit_value)
  then have le: "((of_char a :: nat) - 48) * 10 + (of_char b - 48) \<le> 99" by simp
  have d2: "isDigit CHR ''2''" "isDigit CHR ''0''" by (simp_all add: isDigit_def)
  have p1: "ParseUint_loop [a, b] 20 = (2000 + ((of_char a - 48) * 10 + (of_char b - 48)), None)"
    using d v le by simp
  have p: "ParseUint_loop (CHR ''2'' # CHR ''0'' # [a, b]) 0
      = (2000 + ((of_char a - 48) * 10 + (of_char b - 48)), None)"
    using p1 d2 by simp
  show ?thesis unfolding s using le
    by (simp add: Atoi_def dec2_def Let_def p del: ParseUint_loop.simps)
qed

lemma parseGSMTime_fields:
  assumes f: "two_digits YY" "two_digits MM" "two_digits DD" "two_digits hh" "two_digits mi"
    "two_digits ss"
    and z: "CHR '','' \<notin> set zz" "CHR '':'' \<notin> set zz"
  shows "parseGSMTime (YY @ ''/'' @ MM @ ''/'' @ DD @ '','' @ hh @ '':'' @ mi @ '':'' @ ss
                        @ ''+'' @ zz)
         = time_Date (2000 + dec2 YY) (dec2 MM) (dec2 DD) (dec2 hh) (dec2 mi) (dec2 ss)"
proof -
  let ?date = "YY @ CHR ''/'' # MM @ CHR ''/'' # DD"
  let ?hms = "hh @ CHR '':'' # mi @ CHR '':'' # ss"
  let ?time = "?hms @ CHR ''+'' # zz"
  note ns = two_digits_no_sep not_digit_seps
  have s: "YY @ ''/'' @ MM @ ''/'' @ DD @ '','' @ hh @ '':'' @ mi @ '':'' @ ss @ ''+'' @ zz
      = ?date @ CHR '','' # ?time" by simp
  have "CHR '','' \<notin> set ?date" using f ns by auto
  moreover have "CHR '','' \<notin> set ?time" using f z ns by auto
  ultimately have parts: "Split (?date @ CHR '','' # ?time) CHR '','' = [?date, ?time]"
    using Split_append [of "CHR '',''" ?date ?time] Split_no_sep [of "CHR '',''" ?time]
    by simp
  have "CHR ''/'' \<notin> set YY" "CHR ''/'' \<notin> set MM" "CHR ''/'' \<notin> set DD" using f ns by auto
  then have dateParts: "Split ?date CHR ''/'' = [YY, MM, DD]"
    by (simp add: Split_append Split_no_sep)
  have "CHR ''+'' \<notin> set ?hms" using f ns by auto
  then have timeParts: "Split ?time CHR ''+'' = ?hms # Split zz CHR ''+''"
    by (rule Split_append)
  have "CHR '':'' \<notin> set hh" "CHR '':'' \<notin> set mi" "CHR '':'' \<notin> set ss" using f ns by auto
  then have comps: "Split ?hms CHR '':'' = [hh, mi, ss]"
    by (simp add: Split_append Split_no_sep)
  show ?thesis
    unfolding s parseGSMTime_def parts
    by (simp add: Let_def dateParts timeParts [simplified] comps Atoi_two_digits
        Atoi_year [OF f(1), simplified] f)
qed

lemma parseGSMTime_zero:
  assumes "length (Split s CHR '','') < 2
     \<or> length (Split (Split s CHR '','' ! 0) CHR ''/'') < 3
     \<or> length (Split (Split (Split s CHR '','' ! 1) CHR ''+'' ! 0) CHR '':'') < 3"
  shows "parseGSMTime s = zeroTime"
  using assms by (auto simp: parseGSMTime_def Let_def)

text \<open>
  Claim C7, as stated, covers a zone with a minus sign and every string that does not
  parse.  With a minus sign the seconds are lost: the time is split at \<^verbatim>\<open>+\<close> only, the
  last component keeps the zone, \<^verbatim>\<open>Atoi\<close> fails on it and the ignored error leaves 0.
  A string with the right separators whose year is not a number does not give the zero
  instant either: the year is read as 0.
\<close>

theorem parseGSMTime_minus_zone_and_bad_field:
  "parseGSMTime ''20/01/01,12:00:05-12'' = time_Date 2020 1 1 12 0 0
   \<and> parseGSMTime ''20/01/01,12:00:05-12'' \<noteq> time_Date 2020 1 1 12 0 5
   \<and> parseGSMTime ''xx/01/01,12:00:00+00'' = time_Date 0 1 1 12 0 0
   \<and> parseGSMTime ''xx/01/01,12:00:00+00'' \<noteq> zeroTime"
  by (simp add: parseGSMTime_def Split_def Let_def Atoi_def isDigit_def time_Date_def norm_def
      daysSinceYear1_def daysBefore_def isLeap_def zeroTime_def)

text \<open>
  Claim C7, amended.  For every time stamp \<^verbatim>\<open>YY/MM/DD,hh:mm:ss+zz\<close> whose fields are
  two decimal digits each and whose zone sign is \<^verbatim>\<open>+\<close>, \<^verbatim>\<open>parseGSMTime\<close> returns the
  instant \<^verbatim>\<open>time.Date(2000+YY, MM, DD, hh, mm, ss, 0, time.UTC)\<close>, whatever the zone; and
  for every string with fewer than two parts between commas, fewer than three date
  fields between slashes or fewer than three time fields between colons it returns the
  zero instant.
\<close>

theorem parseGSMTime_plus_zone:
  "(two_digits YY \<and> two_digits MM \<and> two_digits DD \<and> two_digits hh \<and> two_digits mi
      \<and> two_digits ss \<and> two_digits zz \<longrightarrow>
      parseGSMTime (YY @ ''/'' @ MM @ ''/'' @ DD @ '','' @ hh @ '':'' @ mi @ '':'' @ ss
                      @ ''+'' @ zz)
        = time_Date (2000 + dec2 YY) (dec2 MM) (dec2 DD) (dec2 hh) (dec2 mi) (dec2 ss))
   \<and> (length (Split s CHR '','') < 2
        \<or> length (Split (Split s CHR '','' ! 0) CHR ''/'') < 3
        \<or> length (Split (Split (Split s CHR '','' ! 1) CHR ''+'' ! 0) CHR '':'') < 3 \<longrightarrow>
      parseGSMTime s = zeroTime)"
proof (intro conjI impI)
  assume a: "two_digits YY \<and> two_digits MM \<and> two_digits DD \<and> two_digits hh \<and> two_digits mi
      \<and> two_digits ss \<and> two_digits zz"
  then have "CHR '','' \<notin> set zz" "CHR '':'' \<notin> set zz"
    using two_digits_no_sep not_digit_seps by blast+
  with a show "parseGSMTime (YY @ ''/'' @ MM @ ''/'' @ DD @ '','' @ hh @ '':'' @ mi @ '':'' @ ss
                      @ ''+'' @ zz)
        = time_Date (2000 + dec2 YY) (dec2 MM) (dec2 DD) (dec2 hh) (dec2 mi) (dec2 ss)"
    by (intro parseGSMTime_fields) simp_all
next
  assume "length (Split s CHR '','') < 2
        \<or> length (Split (Split s CHR '','' ! 0) CHR ''/'') < 3
        \<or> length (Split (Split (Split s CHR '','' ! 1) CHR ''+'' ! 0) CHR '':'') < 3"
  then show "parseGSMTime s = zeroTime" by (rule parseGSMTime_zero)
qed

theorem parseGSMTime_plus_zone_witness:
  "two_digits ''20'' \<and> two_digits ''01'' \<and> two_digits ''12'' \<and> two_digits ''00''
   \<and> two_digits ''05''
   \<and> parseGSMTime ''20/01/01,12:00:05+12'' = time_Date 2020 1 1 12 0 5
   \<and> time_Date 2020 1 1 12 0 5 = 63713476805
   \<and> length (Split ''20/01/01'' CHR '','') < 2
   \<and> parseGSMTime ''20/01/01'' = zeroTime"
proof -
  have t: "two_digits ''20''" "two_digits ''01''" "two_digits ''12''" "two_digits ''00''"
    "two_digits ''05''"
    by (simp_all add: two_digits_def isDigit_def)
  have d: "dec2 ''20'' = 20" "dec2 ''01'' = 1" "dec2 ''12'' = 12" "dec2 ''00'' = 0"
    "dec2 ''05'' = 5"
    by (simp_all add: dec2_def)
  have l: "length (Split ''20/01/01'' CHR '','') < 2" by (simp add: Split_def)
  have v: "time_Date 2020 1 1 12 0 5 = 63713476805"
    by (simp add: time_Date_def norm_def daysSinceYear1_def daysBefore_def isLeap_def)
  show ?thesis
    using parseGSMTime_plus_zone [of "''20''" "''01''" "''01''" "''12''" "''00''" "''05''"
        "''12''" "''20/01/01''"] t d l v
    by simp
qed

end
